theory Spec2Isabelle
  imports Complex_Main "HOL-Library.Sublist"
begin

section \<open>Python strings\<close>

text \<open>
  A Python \<open>str\<close> is modelled as a \<open>string\<close> (a list of characters); the operations
  below are the \<open>str\<close> methods that \<open>SpiderScraper.py\<close> calls. Case folding and the
  whitespace class are the ones of the code points below 256: the upper-case letters are
  \<open>A\<close> to \<open>Z\<close> and the code points 192 to 222 except 215 (the multiplication sign), and
  \<open>lower\<close> moves each 32 code points up.
\<close>

definition py_isspace :: "char \<Rightarrow> bool" where
  "py_isspace c = (c \<in> set (map char_of [9, 10, 11, 12, 13, 28, 29, 30, 31, 32, 133, 160 :: nat]))"

definition is_upper :: "char \<Rightarrow> bool" where
  "is_upper c =
     (let n = of_char c :: nat
      in (65 \<le> n \<and> n \<le> 90) \<or> (192 \<le> n \<and> n \<le> 214) \<or> (216 \<le> n \<and> n \<le> 222))"

definition lower_char :: "char \<Rightarrow> char" where
  "lower_char c = (if is_upper c then char_of (of_char c + 32 :: nat) else c)"

definition py_lower :: "string \<Rightarrow> string" where
  "py_lower s = map lower_char s"

definition py_lstrip :: "(char \<Rightarrow> bool) \<Rightarrow> string \<Rightarrow> string" where
  "py_lstrip p s = dropWhile p s"

definition py_rstrip :: "(char \<Rightarrow> bool) \<Rightarrow> string \<Rightarrow> string" where
  "py_rstrip p s = rev (dropWhile p (rev s))"

definition py_strip :: "(char \<Rightarrow> bool) \<Rightarrow> string \<Rightarrow> string" where
  "py_strip p s = py_rstrip p (py_lstrip p s)"

text \<open>\<open>s.split(sep)\<close> for a separator of one character: never an empty list.\<close>

fun py_split :: "char \<Rightarrow> string \<Rightarrow> string list" where
  "py_split sep [] = [[]]"
| "py_split sep (c # cs) =
     (if c = sep then [] # py_split sep cs
      else (case py_split sep cs of
              [] \<Rightarrow> [[c]]
            | w # ws \<Rightarrow> (c # w) # ws))"

text \<open>\<open>s.split(sep, 1)[0]\<close>: the text before the first separator.\<close>

definition split_first :: "char \<Rightarrow> string \<Rightarrow> string" where
  "split_first sep s = takeWhile (\<lambda>c. c \<noteq> sep) s"

text \<open>\<open>k in s\<close> on strings is the contiguous-substring test \<^const>\<open>sublist\<close>;
  \<open>s.startswith(p)\<close> is \<^const>\<open>prefix\<close> and \<open>s.endswith(p)\<close> is \<^const>\<open>suffix\<close>.\<close>

section \<open>The part of \<open>urllib.parse\<close> the crawler reads\<close>

text \<open>
  \<open>urllib.parse\<close> belongs to the Python standard library, not to the repository. The
  crawler reads three components of \<open>urlparse(u)\<close>: \<open>scheme\<close>, \<open>netloc\<close> and \<open>path\<close>.
  They are modelled after CPython's \<open>urlsplit\<close> and \<open>urlparse\<close>: leading C0 control
  characters and spaces are dropped, tabs and line breaks are removed, an initial run of
  scheme characters that starts with a letter and ends at the first colon is the scheme
  (lower-cased), a following \<open>//\<close> opens the network location, which ends before the
  first of \<open>/ ? #\<close>, then the fragment and the query are cut off, and for the schemes
  with parameters the \<open>;params\<close> of the last path segment. The \<open>ValueError\<close> that CPython
  raises for unbalanced brackets in the network location is outside this model.
  \<open>urljoin\<close> is not modelled: it is a field of the environment below.
\<close>

record parse_result =
  scheme :: string
  netloc :: string
  path :: string
  query :: string
  fragment :: string

definition ascii_alpha :: "char \<Rightarrow> bool" where
  "ascii_alpha c = (c \<in> set ''abcdefghijklmnopqrstuvwxyzABCDEFGHIJKLMNOPQRSTUVWXYZ'')"

definition scheme_char :: "char \<Rightarrow> bool" where
  "scheme_char c = (ascii_alpha c \<or> c \<in> set ''0123456789+-.'')"

definition c0_control_or_space :: "char \<Rightarrow> bool" where
  "c0_control_or_space c = ((of_char c :: nat) \<le> 32)"

definition unsafe_url_byte :: "char \<Rightarrow> bool" where
  "unsafe_url_byte c = (c \<in> set (map char_of [9, 13, 10 :: nat]))"

definition url_sanitize :: "string \<Rightarrow> string" where
  "url_sanitize u = filter (\<lambda>c. \<not> unsafe_url_byte c) (py_lstrip c0_control_or_space u)"

definition split_scheme :: "string \<Rightarrow> string \<times> string" where
  "split_scheme u =
     (let pre = takeWhile (\<lambda>c. c \<noteq> CHR '':'') u in
      if pre \<noteq> [] \<and> length pre < length u \<and> ascii_alpha (hd pre) \<and> list_all scheme_char pre
      then (py_lower pre, drop (Suc (length pre)) u)
      else ([], u))"

definition netloc_delim :: "char \<Rightarrow> bool" where
  "netloc_delim c = (c \<in> set ''/?#'')"

definition split_netloc :: "string \<Rightarrow> string \<times> string" where
  "split_netloc u =
     (if take 2 u = ''//''
      then (takeWhile (\<lambda>c. \<not> netloc_delim c) (drop 2 u),
            dropWhile (\<lambda>c. \<not> netloc_delim c) (drop 2 u))
      else ([], u))"

definition uses_params :: "string list" where
  "uses_params = ['''', ''ftp'', ''hdl'', ''prospero'', ''http'', ''imap'', ''https'', ''shttp'',
                  ''rtsp'', ''rtspu'', ''sip'', ''sips'', ''mms'', ''sftp'', ''tel'']"

definition strip_params :: "string \<Rightarrow> string" where
  "strip_params p =
     rev (dropWhile (\<lambda>c. c \<noteq> CHR ''/'') (rev p))
       @ takeWhile (\<lambda>c. c \<noteq> CHR '';'') (rev (takeWhile (\<lambda>c. c \<noteq> CHR ''/'') (rev p)))"

definition urlparse :: "string \<Rightarrow> parse_result" where
  "urlparse u0 =
     (let (sch, u1) = split_scheme (url_sanitize u0);
          (loc, u2) = split_netloc u1;
          u3 = split_first (CHR ''#'') u2;
          frag = drop (Suc (length u3)) u2;
          u4 = split_first (CHR ''?'') u3;
          qry = drop (Suc (length u4)) u3
      in \<lparr> scheme = sch, netloc = loc,
           path = (if sch \<in> set uses_params then strip_params u4 else u4),
           query = qry, fragment = frag \<rparr>)"

section \<open>Module-level functions\<close>

definition ALLOWED_SCHEMES :: "string set" where
  "ALLOWED_SCHEMES = {''http'', ''https''}"

text \<open>\<open>same_origin(a, b)\<close>: equal scheme and network location.\<close>

definition same_origin :: "string \<Rightarrow> string \<Rightarrow> bool" where
  "same_origin a b =
     (let pa = urlparse a; pb = urlparse b
      in (scheme pa, netloc pa) = (scheme pb, netloc pb))"

text \<open>
  The test that \<open>normalize_link\<close> makes after stripping the href ("ignore anchors and
  javascript/mailto/tel"). In the source both branches under it are \<open>pass\<close>.
\<close>

definition anchor_or_foreign_scheme :: "string \<Rightarrow> bool" where
  "anchor_or_foreign_scheme href =
     (prefix ''#'' href
      \<or> (CHR '':'' \<in> set (split_first (CHR ''?'') href)
          \<and> split_first (CHR '':'') href \<notin> {''http'', ''https''}))"

text \<open>
  \<open>normalize_link(base_url, href)\<close>, with \<open>urljoin\<close> as a parameter. \<open>None\<close> is the
  source's \<open>return None\<close>.
\<close>

definition normalize_link :: "(string \<Rightarrow> string \<Rightarrow> string) \<Rightarrow> string \<Rightarrow> string \<Rightarrow> string option" where
  "normalize_link join base_url href0 =
     (if href0 = [] then None
      else
        let href = py_strip py_isspace href0;
            _ = (if anchor_or_foreign_scheme href
                 then (if prefix ''http'' href \<or> prefix ''https'' href then () else ())
                 else ());
            abs_url = join base_url href;
            parsed = urlparse abs_url
        in if scheme parsed \<notin> ALLOWED_SCHEMES then None
           else Some (split_first (CHR ''#'') abs_url))"

section \<open>The crawler's world\<close>

text \<open>
  Everything the crawler does to the outside is recorded, in order, in a trace of events:
  HTTP requests, reads of \<open>robots.txt\<close>, sleeps, calls of the two callbacks, and the
  \<open>put\<close>s on the frontier queue. A log message is a value with the fields that the
  source formats into its string.
\<close>

datatype log_msg =
    LogRetry int int string
  | LogRetrying real
  | LogFailed int
  | LogSkipDepth string int int
  | LogBlockedRobots string
  | LogDomainNotAllowed string
  | LogFilterMismatch string
  | LogKeywordMismatch string
  | LogGet string int

datatype event =
    HttpGet string
  | Sleep real
  | RobotsRead string
  | QueuePut string int
  | Progress string string
  | Log log_msg

text \<open>
  A fetched page is what the crawler reads of \<open>r.text\<close> and of its \<open>BeautifulSoup\<close>:
  \<open>soup_title\<close> is \<open>None\<close> when \<open>soup.title\<close> is \<open>None\<close>, \<open>Some None\<close> when
  \<open>soup.title.string\<close> is \<open>None\<close>, and \<open>Some (Some t)\<close> when it is the string \<open>t\<close>;
  \<open>anchors\<close> lists \<open>a.get("href")\<close> for the elements of \<open>soup.select("a[href]")\<close>,
  in document order.
\<close>

record page =
  html :: string
  soup_title :: "string option option"
  anchors :: "string list"

text \<open>A parsed \<open>robots.txt\<close> is its \<open>can_fetch(useragent, url)\<close>.\<close>

type_synonym robots_policy = "string \<Rightarrow> string \<Rightarrow> bool"

text \<open>
  The environment holds what the source takes from libraries, the network and the caller.
  Each answer may depend on the whole history of the run (the trace so far), so a request
  that failed may succeed when retried, and the session's headers, cookies and proxy are
  part of what \<open>http_get\<close> depends on.
  \<^item> \<open>urljoin\<close>: \<open>urllib.parse.urljoin\<close>;
  \<^item> \<open>http_get\<close>: \<open>session.get\<close> followed by \<open>raise_for_status\<close>, \<open>None\<close> for any
    exception;
  \<^item> \<open>robots_read\<close>: \<open>RobotFileParser.read\<close> for a robots URL, \<open>None\<close> for an exception;
  \<^item> \<open>random_choice\<close>: \<open>random.choice(USER_AGENTS)\<close>;
  \<^item> \<open>random_uniform\<close>: \<open>random.uniform\<close>;
  \<^item> \<open>cancel_requested\<close>: whether another thread has called \<open>cancel()\<close> by now;
  \<^item> \<open>log_cb\<close>, \<open>progress_cb\<close>: whether the caller passed the callback.
  Floating-point seconds are modelled as reals.
\<close>

record env =
  urljoin :: "string \<Rightarrow> string \<Rightarrow> string"
  http_get :: "event list \<Rightarrow> string \<Rightarrow> page option"
  robots_read :: "event list \<Rightarrow> string \<Rightarrow> robots_policy option"
  random_choice :: "event list \<Rightarrow> string list \<Rightarrow> string"
  random_uniform :: "event list \<Rightarrow> real \<Rightarrow> real \<Rightarrow> real"
  cancel_requested :: "event list \<Rightarrow> bool"
  log_cb :: bool
  progress_cb :: bool

section \<open>The Spider object\<close>

record Row =
  title :: string
  category :: string
  url :: string

definition USER_AGENT :: string where
  "USER_AGENT = ''RetroPhantomSpider/1.0 (+https://example.com)''"

definition MAX_PAGES :: int where
  "MAX_PAGES = 150"

definition CRAWL_DELAY :: real where
  "CRAWL_DELAY = 3 / 10"

definition USER_AGENTS :: "string list" where
  "USER_AGENTS =
    [''Mozilla/5.0 (Windows NT 10.0; Win64; x64) AppleWebKit/537.36 (KHTML, like Gecko) Chrome/120.0.0.0 Safari/537.36'',
     ''Mozilla/5.0 (Windows NT 10.0; Win64; x64) AppleWebKit/537.36 (KHTML, like Gecko) Chrome/119.0.0.0 Safari/537.36'',
     ''Mozilla/5.0 (Macintosh; Intel Mac OS X 10_15_7) AppleWebKit/537.36 (KHTML, like Gecko) Chrome/120.0.0.0 Safari/537.36'',
     ''Mozilla/5.0 (Windows NT 10.0; Win64; x64; rv:121.0) Gecko/20100101 Firefox/121.0'',
     ''Mozilla/5.0 (Macintosh; Intel Mac OS X 10_15_7) AppleWebKit/605.1.15 (KHTML, like Gecko) Version/17.1 Safari/605.1.15'',
     ''Mozilla/5.0 (X11; Linux x86_64) AppleWebKit/537.36 (KHTML, like Gecko) Chrome/120.0.0.0 Safari/537.36'']"

text \<open>The arguments of \<open>Spider.__init__\<close>; an \<open>Optional\<close> argument is an option.
  The custom headers and cookies only configure the session (see \<open>http_get\<close>).\<close>

record spider_args =
  arg_root_url :: string
  arg_max_pages :: int
  arg_delay :: real
  arg_user_agent :: "string option"
  arg_randomize_ua :: bool
  arg_respect_robots :: bool
  arg_max_depth :: int
  arg_allowed_domains :: "string list option"
  arg_link_filters :: "string list option"
  arg_max_retries :: int
  arg_retry_backoff :: real
  arg_proxies :: "string list option"
  arg_randomize_delay :: bool
  arg_delay_min :: "real option"
  arg_delay_max :: "real option"
  arg_include_keywords :: "string list option"
  arg_exclude_keywords :: "string list option"

text \<open>\<open>Spider(root_url)\<close> with every other argument at its default.\<close>

definition default_args :: "string \<Rightarrow> spider_args" where
  "default_args r =
     \<lparr> arg_root_url = r, arg_max_pages = MAX_PAGES, arg_delay = CRAWL_DELAY,
       arg_user_agent = None, arg_randomize_ua = False, arg_respect_robots = True,
       arg_max_depth = - 1, arg_allowed_domains = None, arg_link_filters = None,
       arg_max_retries = 3, arg_retry_backoff = 1, arg_proxies = None,
       arg_randomize_delay = False, arg_delay_min = None, arg_delay_max = None,
       arg_include_keywords = None, arg_exclude_keywords = None \<rparr>"

text \<open>
  The fields of \<open>self\<close> are split in two records: the ones that \<open>__init__\<close> sets
  and no method changes (\<open>config\<close>; \<open>spider_root\<close> is \<open>self.root\<close>), and the mutable
  ones (\<open>state\<close>). \<open>session_ua\<close> and \<open>session_proxy\<close> are the session's
  \<open>User-Agent\<close> header and proxy; \<open>frontier\<close> is the local queue \<open>q\<close> of \<open>crawl\<close>,
  oldest entry first; \<open>trace\<close> is the record of the events so far.
\<close>

record config =
  spider_root :: string
  max_pages :: int
  delay :: real
  max_depth :: int
  allowed_domains :: "string list"
  link_filters :: "string list"
  max_retries :: int
  retry_backoff :: real
  randomize_ua :: bool
  respect_robots :: bool
  proxies :: "string list"
  randomize_delay :: bool
  delay_min :: real
  delay_max :: real
  include_keywords :: "string list"
  exclude_keywords :: "string list"
  user_agent :: string

record state =
  current_proxy_index :: nat
  session_ua :: string
  session_proxy :: "string option"
  robots_parsers :: "string \<rightharpoonup> robots_policy"
  seen :: "string set"
  rows :: "Row list"
  cancelled :: bool
  url_depths :: "string \<rightharpoonup> int"
  frontier :: "(string \<times> int) list"
  trace :: "event list"

definition emit :: "event \<Rightarrow> state \<Rightarrow> state" where
  "emit e s = s\<lparr>trace := trace s @ [e]\<rparr>"

definition log_event :: "env \<Rightarrow> log_msg \<Rightarrow> state \<Rightarrow> state" where
  "log_event en m s = (if log_cb en then emit (Log m) s else s)"

text \<open>\<open>x or []\<close> for an optional list.\<close>

definition or_empty :: "'a list option \<Rightarrow> 'a list" where
  "or_empty x = (case x of None \<Rightarrow> [] | Some xs \<Rightarrow> xs)"

definition set_proxy :: "config \<Rightarrow> state \<Rightarrow> state" where
  "set_proxy cfg s =
     (if proxies cfg = [] then s
      else
        let proxy = proxies cfg ! current_proxy_index s;
            proxy' = (if prefix ''http://'' proxy \<or> prefix ''https://'' proxy then proxy
                      else ''http://'' @ proxy)
        in s\<lparr> session_proxy := Some proxy',
               current_proxy_index := (current_proxy_index s + 1) mod length (proxies cfg) \<rparr>)"

definition make_config :: "env \<Rightarrow> spider_args \<Rightarrow> config" where
  "make_config en a =
     \<lparr> spider_root = py_rstrip (\<lambda>c. c = CHR ''/'') (arg_root_url a),
       max_pages = arg_max_pages a,
       delay = arg_delay a,
       max_depth = arg_max_depth a,
       allowed_domains = or_empty (arg_allowed_domains a),
       link_filters = or_empty (arg_link_filters a),
       max_retries = arg_max_retries a,
       retry_backoff = arg_retry_backoff a,
       randomize_ua = arg_randomize_ua a,
       respect_robots = arg_respect_robots a,
       proxies = or_empty (arg_proxies a),
       randomize_delay = arg_randomize_delay a,
       delay_min = (case arg_delay_min a of Some d \<Rightarrow> d | None \<Rightarrow> arg_delay a * (1 / 2)),
       delay_max = (case arg_delay_max a of Some d \<Rightarrow> d | None \<Rightarrow> arg_delay a * (3 / 2)),
       include_keywords = or_empty (arg_include_keywords a),
       exclude_keywords = or_empty (arg_exclude_keywords a),
       user_agent =
         (if arg_randomize_ua a then random_choice en [] USER_AGENTS
          else (case arg_user_agent a of
                  Some ua \<Rightarrow> (if ua \<noteq> [] then ua else USER_AGENT)
                | None \<Rightarrow> USER_AGENT)) \<rparr>"

definition make_state :: "env \<Rightarrow> spider_args \<Rightarrow> state" where
  "make_state en a =
     (let cfg = make_config en a;
          s0 = \<lparr> current_proxy_index = 0, session_ua = user_agent cfg, session_proxy = None,
                 robots_parsers = Map.empty, seen = {}, rows = [], cancelled = False,
                 url_depths = Map.empty, frontier = [], trace = [] \<rparr>
      in if proxies cfg \<noteq> [] then set_proxy cfg s0 else s0)"

text \<open>\<open>Spider.__init__\<close>: the object just constructed.\<close>

definition Spider_init :: "env \<Rightarrow> spider_args \<Rightarrow> config \<times> state" where
  "Spider_init en a = (make_config en a, make_state en a)"

definition get_delay :: "env \<Rightarrow> config \<Rightarrow> state \<Rightarrow> real" where
  "get_delay en cfg s =
     (if randomize_delay cfg then random_uniform en (trace s) (delay_min cfg) (delay_max cfg)
      else delay cfg)"

subsection \<open>Keyword, domain and link filters\<close>

text \<open>The loop \<open>for keyword in keywords: if keyword.lower() in url_lower: return ...\<close>:
  whether it reaches its \<open>return\<close>.\<close>

fun keyword_loop :: "string list \<Rightarrow> string \<Rightarrow> bool" where
  "keyword_loop [] url_lower = False"
| "keyword_loop (keyword # rest) url_lower =
     (if sublist (py_lower keyword) url_lower then True else keyword_loop rest url_lower)"

definition check_keyword_filters :: "config \<Rightarrow> string \<Rightarrow> bool" where
  "check_keyword_filters cfg u =
     (let url_lower = py_lower u in
      if keyword_loop (exclude_keywords cfg) url_lower then False
      else if include_keywords cfg \<noteq> [] then
        (if keyword_loop (include_keywords cfg) url_lower then True else False)
      else True)"

fun domain_loop :: "string list \<Rightarrow> string \<Rightarrow> bool" where
  "domain_loop [] domain = False"
| "domain_loop (allowed0 # rest) domain =
     (let allowed = py_strip py_isspace (py_lower allowed0) in
      if prefix ''.'' allowed then
        (if suffix allowed domain \<or> domain = drop 1 allowed then True
         else domain_loop rest domain)
      else
        (if domain = allowed \<or> suffix (''.'' @ allowed) domain then True
         else domain_loop rest domain))"

definition check_domain_allowed :: "config \<Rightarrow> string \<Rightarrow> bool" where
  "check_domain_allowed cfg u =
     (if allowed_domains cfg = [] then True
      else domain_loop (allowed_domains cfg) (py_lower (netloc (urlparse u))))"

fun link_filter_loop :: "string list \<Rightarrow> string \<Rightarrow> bool" where
  "link_filter_loop [] p = False"
| "link_filter_loop (filter_ext0 # rest) p =
     (let filter_ext1 = py_strip py_isspace (py_lower filter_ext0);
          filter_ext = (if \<not> prefix ''.'' filter_ext1 then ''.'' @ filter_ext1 else filter_ext1)
      in if suffix filter_ext p \<or> suffix (filter_ext @ ''/'') p then True
         else link_filter_loop rest p)"

definition check_link_filter :: "config \<Rightarrow> string \<Rightarrow> bool" where
  "check_link_filter cfg u =
     (if link_filters cfg = [] then True
      else link_filter_loop (link_filters cfg) (py_lower (path (urlparse u))))"

subsection \<open>robots.txt\<close>

text \<open>\<open>_get_robots_parser\<close>: a parser that was read is cached under its robots URL; a
  read that raised is not.\<close>

definition get_robots_parser :: "env \<Rightarrow> config \<Rightarrow> state \<Rightarrow> string \<Rightarrow> robots_policy option \<times> state" where
  "get_robots_parser en cfg s u =
     (if \<not> respect_robots cfg then (None, s)
      else
        let parsed = urlparse u;
            robots_url = scheme parsed @ ''://'' @ netloc parsed @ ''/robots.txt''
        in case robots_parsers s robots_url of
             Some rp \<Rightarrow> (Some rp, s)
           | None \<Rightarrow>
               (case robots_read en (trace s) robots_url of
                  Some rp \<Rightarrow>
                    (Some rp,
                     emit (RobotsRead robots_url)
                       (s\<lparr>robots_parsers := (robots_parsers s)(robots_url \<mapsto> rp)\<rparr>))
                | None \<Rightarrow> (None, emit (RobotsRead robots_url) s)))"

definition can_fetch :: "env \<Rightarrow> config \<Rightarrow> state \<Rightarrow> string \<Rightarrow> bool \<times> state" where
  "can_fetch en cfg s u =
     (if \<not> respect_robots cfg then (True, s)
      else
        case get_robots_parser en cfg s u of
          (None, s') \<Rightarrow> (True, s')
        | (Some rp, s') \<Rightarrow> (rp (user_agent cfg) u, s'))"

subsection \<open>Fetching with retries\<close>

text \<open>
  \<open>_fetch_with_retry\<close>: \<open>fetch_from en cfg u attempt s\<close> is the loop
  \<open>for attempt in range(self.max_retries + 1)\<close> from the iteration \<open>attempt\<close> on, and
  \<open>(None, s)\<close> is the \<open>return None\<close> after the loop. \<open>before_attempt\<close> is what the
  \<open>try\<close> block does before the request (a new random user agent and the retry message,
  from the second attempt on), \<open>backoff\<close> the message and the sleep before a retry.
\<close>

definition before_attempt :: "env \<Rightarrow> config \<Rightarrow> string \<Rightarrow> int \<Rightarrow> state \<Rightarrow> state" where
  "before_attempt en cfg u attempt s =
     (let s1 = (if randomize_ua cfg \<and> attempt > 0
                then s\<lparr>session_ua := random_choice en (trace s) USER_AGENTS\<rparr> else s)
      in if attempt > 0 then log_event en (LogRetry attempt (max_retries cfg) u) s1 else s1)"

definition backoff :: "env \<Rightarrow> config \<Rightarrow> int \<Rightarrow> state \<Rightarrow> state" where
  "backoff en cfg attempt s =
     (let wait_time = retry_backoff cfg * 2 ^ nat attempt
      in emit (Sleep wait_time) (log_event en (LogRetrying wait_time) s))"

function fetch_from :: "env \<Rightarrow> config \<Rightarrow> string \<Rightarrow> int \<Rightarrow> state \<Rightarrow> page option \<times> state" where
  "fetch_from en cfg u attempt s =
     (if \<not> attempt < max_retries cfg + 1 then (None, s)
      else
        let s1 = before_attempt en cfg u attempt s;
            r = http_get en (trace s1) u;
            s2 = emit (HttpGet u) s1
        in case r of
             Some pg \<Rightarrow> (Some pg, s2)
           | None \<Rightarrow>
               if attempt < max_retries cfg
               then fetch_from en cfg u (attempt + 1) (backoff en cfg attempt s2)
               else (None, log_event en (LogFailed (max_retries cfg)) s2))"
  by pat_completeness auto
termination
  by (relation "measure (\<lambda>(en, cfg, u, attempt, s). nat (max_retries cfg + 1 - attempt))") auto

definition fetch_with_retry :: "env \<Rightarrow> config \<Rightarrow> string \<Rightarrow> state \<Rightarrow> page option \<times> state" where
  "fetch_with_retry en cfg u s = fetch_from en cfg u 0 s"

subsection \<open>Depth of a URL\<close>

text \<open>\<open>_get_url_depth\<close>: the depth and the object afterwards (the depth computed from
  the path segments is stored).\<close>

definition get_url_depth :: "config \<Rightarrow> state \<Rightarrow> string \<Rightarrow> int \<times> state" where
  "get_url_depth cfg s u =
     (case url_depths s u of
        Some d \<Rightarrow> (d, s)
      | None \<Rightarrow>
          if u = spider_root cfg then (0, s)
          else
            let root_parsed = urlparse (spider_root cfg);
                url_parsed = urlparse u
            in if netloc root_parsed \<noteq> netloc url_parsed then (- 1, s)
               else
                 let root_path = py_split (CHR ''/'') (py_rstrip (\<lambda>c. c = CHR ''/'') (path root_parsed));
                     url_path = py_split (CHR ''/'') (py_rstrip (\<lambda>c. c = CHR ''/'') (path url_parsed));
                     depth = max 0 (int (length url_path) - int (length root_path))
                 in (depth, s\<lparr>url_depths := (url_depths s)(u \<mapsto> depth)\<rparr>))"

subsection \<open>The crawl\<close>

text \<open>The first four statements of \<open>crawl\<close>: the queue with the root, the root seen, its
  depth 0.\<close>

definition crawl_seed :: "config \<Rightarrow> state \<Rightarrow> state" where
  "crawl_seed cfg s =
     emit (QueuePut (spider_root cfg) 0)
       (s\<lparr> frontier := [(spider_root cfg, 0)],
           seen := insert (spider_root cfg) (seen s),
           url_depths := (url_depths s)(spider_root cfg \<mapsto> 0) \<rparr>)"

text \<open>The loop \<open>for a in soup.select("a[href]")\<close> over the hrefs of the page at \<open>u\<close>:
  \<open>queue_link\<close> is its body for one href, where every \<open>continue\<close> returns the state.\<close>

definition queue_link :: "env \<Rightarrow> config \<Rightarrow> string \<Rightarrow> string \<Rightarrow> state \<Rightarrow> state" where
  "queue_link en cfg u href s =
     (case normalize_link (urljoin en) u href of
        None \<Rightarrow> s
      | Some abs_url \<Rightarrow>
          if abs_url = [] then s
          else if \<not> same_origin (spider_root cfg) abs_url then s
          else if abs_url \<in> seen s then s
          else
            (case get_url_depth cfg s abs_url of
               (new_depth, s1) \<Rightarrow>
                 if max_depth cfg \<ge> 0 \<and> new_depth > max_depth cfg then s1
                 else if \<not> check_keyword_filters cfg abs_url then s1
                 else
                   emit (QueuePut abs_url new_depth)
                     (s1\<lparr> seen := insert abs_url (seen s1),
                          frontier := frontier s1 @ [(abs_url, new_depth)] \<rparr>)))"

fun queue_links :: "env \<Rightarrow> config \<Rightarrow> string \<Rightarrow> string list \<Rightarrow> state \<Rightarrow> state" where
  "queue_links en cfg u [] s = s"
| "queue_links en cfg u (href # rest) s = queue_links en cfg u rest (queue_link en cfg u href s)"

text \<open>The title and the category of the record of a page.\<close>

definition page_title :: "page \<Rightarrow> string \<Rightarrow> string" where
  "page_title pg u =
     (case soup_title pg of
        Some (Some t) \<Rightarrow> (if t \<noteq> [] then py_strip py_isspace t else u)
      | _ \<Rightarrow> u)"

definition page_category :: "string \<Rightarrow> string" where
  "page_category u =
     (let p = py_strip (\<lambda>c. c = CHR ''/'') (path (urlparse u))
      in if p \<noteq> [] then hd (py_split (CHR ''/'') p) else [])"

text \<open>The rest of an iteration once the page at \<open>u\<close> is fetched: the record, the
  progress callback, the links, the delay.\<close>

definition visit_page :: "env \<Rightarrow> config \<Rightarrow> string \<Rightarrow> page \<Rightarrow> state \<Rightarrow> state" where
  "visit_page en cfg u pg s =
     (let t = page_title pg u;
          c = page_category u;
          s1 = s\<lparr>rows := rows s @ [\<lparr>title = t, category = c, url = u\<rparr>]\<rparr>;
          s2 = (if progress_cb en then emit (Progress t (html pg)) s1 else s1);
          s3 = queue_links en cfg u (anchors pg) s2
      in emit (Sleep (get_delay en cfg s3)) s3)"

text \<open>The loop test, read after the other thread's \<open>cancel()\<close>, if any, has set the flag.\<close>

definition poll_cancel :: "env \<Rightarrow> state \<Rightarrow> state" where
  "poll_cancel en s = s\<lparr>cancelled := cancelled s \<or> cancel_requested en (trace s)\<rparr>"

definition loop_cond :: "config \<Rightarrow> state \<Rightarrow> bool" where
  "loop_cond cfg s = (frontier s \<noteq> [] \<and> int (length (rows s)) < max_pages cfg \<and> \<not> cancelled s)"

text \<open>One iteration of the \<open>while\<close> loop of \<open>crawl\<close>, entered with a frontier that is not
  empty. Every \<open>continue\<close> is a branch that returns the state.\<close>

definition crawl_step :: "env \<Rightarrow> config \<Rightarrow> state \<Rightarrow> state" where
  "crawl_step en cfg s =
     (case hd (frontier s) of
        (u, depth) \<Rightarrow>
          (let s1 = s\<lparr>frontier := tl (frontier s)\<rparr> in
           if max_depth cfg \<ge> 0 \<and> depth > max_depth cfg
           then log_event en (LogSkipDepth u depth (max_depth cfg)) s1
           else
             (case can_fetch en cfg s1 u of
                (allowed, s2) \<Rightarrow>
                  (if \<not> allowed then log_event en (LogBlockedRobots u) s2
                   else if \<not> check_domain_allowed cfg u then log_event en (LogDomainNotAllowed u) s2
                   else if \<not> check_link_filter cfg u then log_event en (LogFilterMismatch u) s2
                   else if \<not> check_keyword_filters cfg u then log_event en (LogKeywordMismatch u) s2
                   else
                     (let s3 = (if proxies cfg \<noteq> [] then set_proxy cfg s2 else s2);
                          s4 = log_event en (LogGet u depth) s3
                      in (case fetch_with_retry en cfg u s4 of
                            (None, s5) \<Rightarrow> s5
                          | (Some pg, s5) \<Rightarrow> visit_page en cfg u pg s5))))))"

section \<open>Bookkeeping\<close>

text \<open>The URLs put on the frontier queue, in order.\<close>

definition enqueued :: "event list \<Rightarrow> string list" where
  "enqueued tr = concat (map (\<lambda>e. case e of QueuePut u d \<Rightarrow> [u] | _ \<Rightarrow> []) tr)"

text \<open>A transition that leaves the crawl's own data alone: the records, the frontier, the
  visited set, the depths, the flag, and no \<open>put\<close> on the queue.\<close>

definition quiet :: "state \<Rightarrow> state \<Rightarrow> bool" where
  "quiet s s' = (rows s' = rows s \<and> frontier s' = frontier s \<and> seen s' = seen s
     \<and> url_depths s' = url_depths s \<and> cancelled s' = cancelled s
     \<and> enqueued (trace s') = enqueued (trace s))"

lemma enqueued_append [simp]: "enqueued (xs @ ys) = enqueued xs @ enqueued ys"
  by (simp add: enqueued_def)

lemma enqueued_simps [simp]:
  "enqueued [] = []"
  "enqueued (HttpGet u # tr) = enqueued tr"
  "enqueued (Sleep t # tr) = enqueued tr"
  "enqueued (RobotsRead u # tr) = enqueued tr"
  "enqueued (QueuePut u d # tr) = u # enqueued tr"
  "enqueued (Progress a b # tr) = enqueued tr"
  "enqueued (Log m # tr) = enqueued tr"
  by (simp_all add: enqueued_def)

lemma quiet_refl [simp]: "quiet s s"
  by (simp add: quiet_def)

lemma quiet_trans [trans]: "quiet s s' \<Longrightarrow> quiet s' s'' \<Longrightarrow> quiet s s''"
  by (simp add: quiet_def)

lemma emit_fields [simp]:
  "rows (emit e s) = rows s" "frontier (emit e s) = frontier s" "seen (emit e s) = seen s"
  "url_depths (emit e s) = url_depths s" "cancelled (emit e s) = cancelled s"
  "robots_parsers (emit e s) = robots_parsers s"
  "trace (emit e s) = trace s @ [e]"
  by (simp_all add: emit_def)

lemma log_event_fields [simp]:
  "rows (log_event en m s) = rows s" "frontier (log_event en m s) = frontier s"
  "seen (log_event en m s) = seen s" "url_depths (log_event en m s) = url_depths s"
  "cancelled (log_event en m s) = cancelled s"
  "robots_parsers (log_event en m s) = robots_parsers s"
  "trace (log_event en m s) = trace s @ (if log_cb en then [Log m] else [])"
  by (simp_all add: log_event_def)

lemma quiet_emit:
  "quiet s (emit (HttpGet u) s)" "quiet s (emit (Sleep t) s)" "quiet s (emit (RobotsRead u) s)"
  "quiet s (emit (Progress a b) s)" "quiet s (emit (Log m) s)"
  by (simp_all add: quiet_def)

lemma quiet_log_event: "quiet s (log_event en m s)"
  by (simp add: quiet_def)

lemma quiet_set_proxy: "quiet s (set_proxy cfg s)"
  by (simp add: quiet_def set_proxy_def Let_def)

lemma quiet_get_robots_parser: "quiet s (snd (get_robots_parser en cfg s u))"
  by (simp add: quiet_def get_robots_parser_def Let_def split: option.splits)

lemma can_fetch_snd: "snd (can_fetch en cfg s u) = snd (get_robots_parser en cfg s u)"
  by (simp add: can_fetch_def get_robots_parser_def split: prod.splits option.splits)

lemma quiet_can_fetch: "quiet s (snd (can_fetch en cfg s u))"
  by (simp add: can_fetch_snd quiet_get_robots_parser)

lemma quiet_before_attempt: "quiet s (before_attempt en cfg u a s)"
  by (simp add: quiet_def before_attempt_def Let_def)

lemma quiet_backoff: "quiet s (backoff en cfg a s)"
  by (simp add: quiet_def backoff_def Let_def)

declare fetch_from.simps [simp del]

text \<open>The four ways an iteration of the retry loop goes.\<close>

lemma fetch_from_cases_induct [case_names exhausted success retry failure]:
  assumes exhausted: "\<And>a s. \<not> a < max_retries cfg + 1 \<Longrightarrow> P a s (None, s)"
    and success: "\<And>a s pg. a < max_retries cfg + 1 \<Longrightarrow>
          http_get en (trace (before_attempt en cfg u a s)) u = Some pg \<Longrightarrow>
          P a s (Some pg, emit (HttpGet u) (before_attempt en cfg u a s))"
    and retry: "\<And>a s. a < max_retries cfg \<Longrightarrow>
          http_get en (trace (before_attempt en cfg u a s)) u = None \<Longrightarrow>
          P (a + 1) (backoff en cfg a (emit (HttpGet u) (before_attempt en cfg u a s)))
            (fetch_from en cfg u (a + 1) (backoff en cfg a (emit (HttpGet u) (before_attempt en cfg u a s)))) \<Longrightarrow>
          P a s (fetch_from en cfg u (a + 1) (backoff en cfg a (emit (HttpGet u) (before_attempt en cfg u a s))))"
    and failure: "\<And>a s. a = max_retries cfg \<Longrightarrow>
          http_get en (trace (before_attempt en cfg u a s)) u = None \<Longrightarrow>
          P a s (None, log_event en (LogFailed (max_retries cfg)) (emit (HttpGet u) (before_attempt en cfg u a s)))"
  shows "P a s (fetch_from en cfg u a s)"
proof (induction "nat (max_retries cfg + 1 - a)" arbitrary: a s)
  case 0
  then have na: "\<not> a < max_retries cfg + 1" by simp
  then have "fetch_from en cfg u a s = (None, s)"
    by (subst fetch_from.simps) simp
  with exhausted [OF na] show ?case by simp
next
  case (Suc n)
  then have lt1: "a < max_retries cfg + 1" by linarith
  let ?s1 = "before_attempt en cfg u a s"
  show ?case
  proof (cases "http_get en (trace ?s1) u")
    case (Some pg)
    then have "fetch_from en cfg u a s = (Some pg, emit (HttpGet u) ?s1)"
      using lt1 by (subst fetch_from.simps) (simp add: Let_def)
    with success [OF lt1 Some] show ?thesis by simp
  next
    case None
    show ?thesis
    proof (cases "a < max_retries cfg")
      case True
      have eq: "fetch_from en cfg u a s
                  = fetch_from en cfg u (a + 1) (backoff en cfg a (emit (HttpGet u) ?s1))"
        using lt1 None True by (subst fetch_from.simps) (simp add: Let_def)
      have n: "n = nat (max_retries cfg + 1 - (a + 1))"
        using Suc.hyps(2) by linarith
      show ?thesis
        unfolding eq by (rule retry [OF True None]) (rule Suc.hyps(1) [OF n])
    next
      case False
      with lt1 have a: "a = max_retries cfg" by simp
      have "fetch_from en cfg u a s
              = (None, log_event en (LogFailed (max_retries cfg)) (emit (HttpGet u) ?s1))"
        using lt1 None False by (subst fetch_from.simps) (simp add: Let_def)
      with failure [OF a None] show ?thesis by simp
    qed
  qed
qed

lemma quiet_fetch_from: "quiet s (snd (fetch_from en cfg u a s))"
proof (induction a s rule: fetch_from_cases_induct [where en = en and cfg = cfg and u = u])
  case (exhausted a s)
  then show ?case by simp
next
  case (success a s pg)
  then show ?case using quiet_before_attempt quiet_emit(1) quiet_trans by (metis snd_conv)
next
  case (retry a s)
  have "quiet s (backoff en cfg a (emit (HttpGet u) (before_attempt en cfg u a s)))"
    using quiet_before_attempt quiet_emit(1) quiet_backoff quiet_trans by metis
  with retry(3) show ?case using quiet_trans by blast
next
  case (failure a s)
  then show ?case using quiet_before_attempt quiet_emit(1) quiet_log_event quiet_trans
    by (metis snd_conv)
qed

lemma quiet_fetch_with_retry: "quiet s (snd (fetch_with_retry en cfg u s))"
  by (simp add: fetch_with_retry_def quiet_fetch_from)

lemma get_url_depth_fields [simp]:
  "rows (snd (get_url_depth cfg s u)) = rows s"
  "frontier (snd (get_url_depth cfg s u)) = frontier s"
  "seen (snd (get_url_depth cfg s u)) = seen s"
  "cancelled (snd (get_url_depth cfg s u)) = cancelled s"
  "trace (snd (get_url_depth cfg s u)) = trace s"
  by (simp_all add: get_url_depth_def Let_def split: option.splits)

lemma queue_link_fields [simp]:
  "rows (queue_link en cfg u h s) = rows s"
  "cancelled (queue_link en cfg u h s) = cancelled s"
  by (simp_all add: queue_link_def split_def split: option.splits)

lemma queue_links_fields [simp]:
  "rows (queue_links en cfg u hs s) = rows s"
  "cancelled (queue_links en cfg u hs s) = cancelled s"
  by (induction hs arbitrary: s) simp_all

lemma visit_page_rows:
  "rows (visit_page en cfg u pg s)
     = rows s @ [\<lparr>title = page_title pg u, category = page_category u, url = u\<rparr>]"
  by (simp add: visit_page_def Let_def)

lemma visit_page_cancelled [simp]: "cancelled (visit_page en cfg u pg s) = cancelled s"
  by (simp add: visit_page_def Let_def)

text \<open>An iteration either skips its entry, or appends the record of the page it fetched.\<close>

lemma crawl_step_cases [case_names skip visit]:
  obtains (skip) "quiet (s\<lparr>frontier := tl (frontier s)\<rparr>) (crawl_step en cfg s)"
  | (visit) pg s' where "quiet (s\<lparr>frontier := tl (frontier s)\<rparr>) s'"
      "crawl_step en cfg s = visit_page en cfg (fst (hd (frontier s))) pg s'"
proof -
  obtain u d where hd: "hd (frontier s) = (u, d)" by (cases "hd (frontier s)")
  define s1 where "s1 = s\<lparr>frontier := tl (frontier s)\<rparr>"
  obtain ok s2 where cf: "can_fetch en cfg s1 u = (ok, s2)" by (cases "can_fetch en cfg s1 u")
  define s4 where "s4 = log_event en (LogGet u d) (if proxies cfg \<noteq> [] then set_proxy cfg s2 else s2)"
  obtain r s5 where fw: "fetch_with_retry en cfg u s4 = (r, s5)"
    by (cases "fetch_with_retry en cfg u s4")
  have q2: "quiet s1 s2" using quiet_can_fetch [of s1 en cfg u] cf by simp
  have "quiet s2 s4" unfolding s4_def using quiet_set_proxy quiet_log_event quiet_trans quiet_refl
    by (metis (full_types))
  with q2 have q4: "quiet s1 s4" by (rule quiet_trans)
  have "quiet s4 s5" using quiet_fetch_with_retry [of s4 en cfg u] fw by simp
  with q4 have q5: "quiet s1 s5" by (rule quiet_trans)
  have step: "crawl_step en cfg s =
    (if max_depth cfg \<ge> 0 \<and> d > max_depth cfg then log_event en (LogSkipDepth u d (max_depth cfg)) s1
     else if \<not> ok then log_event en (LogBlockedRobots u) s2
     else if \<not> check_domain_allowed cfg u then log_event en (LogDomainNotAllowed u) s2
     else if \<not> check_link_filter cfg u then log_event en (LogFilterMismatch u) s2
     else if \<not> check_keyword_filters cfg u then log_event en (LogKeywordMismatch u) s2
     else (case r of None \<Rightarrow> s5 | Some pg \<Rightarrow> visit_page en cfg u pg s5))"
    by (simp add: crawl_step_def hd Let_def s1_def [symmetric] cf s4_def [symmetric] fw)
  show thesis
  proof (cases "(max_depth cfg \<ge> 0 \<and> d > max_depth cfg) \<or> \<not> ok \<or> \<not> check_domain_allowed cfg u
       \<or> \<not> check_link_filter cfg u \<or> \<not> check_keyword_filters cfg u \<or> r = None")
    case True
    have "quiet s1 (crawl_step en cfg s)"
      unfolding step using True q2 q5 quiet_log_event [of s1] quiet_log_event [of s2] quiet_trans
      by (auto split: option.splits)
    then show thesis using skip by (simp add: s1_def)
  next
    case False
    then obtain pg where "r = Some pg" by auto
    with False have "crawl_step en cfg s = visit_page en cfg u pg s5"
      unfolding step by auto
    with q5 show thesis using visit [of s5 pg] by (simp add: s1_def hd)
  qed
qed

lemma crawl_step_rows:
  "(rows (crawl_step en cfg s) = rows s \<and> frontier (crawl_step en cfg s) = tl (frontier s))
   \<or> (\<exists>r. rows (crawl_step en cfg s) = rows s @ [r])"
proof (cases rule: crawl_step_cases [of s en cfg])
  case skip
  then show ?thesis by (simp add: quiet_def)
next
  case (visit pg s')
  then show ?thesis by (simp add: quiet_def visit_page_rows)
qed

text \<open>The \<open>while\<close> loop of \<open>crawl\<close>, and \<open>crawl\<close>.\<close>

function crawl_loop :: "env \<Rightarrow> config \<Rightarrow> state \<Rightarrow> state" where
  "crawl_loop en cfg s =
     (let s' = poll_cancel en s in
      if loop_cond cfg s' then crawl_loop en cfg (crawl_step en cfg s') else s')"
  by pat_completeness auto
termination
proof (relation "measures [\<lambda>(en, cfg, s). nat (max_pages cfg - int (length (rows s))),
                           \<lambda>(en, cfg, s). length (frontier s)]")
  show "wf (measures [\<lambda>(en, cfg, s). nat (max_pages cfg - int (length (rows s))),
                           \<lambda>(en, cfg, s). length (frontier s)])"
    by simp
next
  fix en :: env and cfg :: config and s s' :: state
  assume s': "s' = poll_cancel en s" and c: "loop_cond cfg s'"
  have f: "frontier s' = frontier s" "rows s' = rows s"
    by (simp_all add: s' poll_cancel_def)
  from crawl_step_rows [of en cfg s'] c f
  show "((en, cfg, crawl_step en cfg s'), (en, cfg, s))
        \<in> measures [\<lambda>(en, cfg, s). nat (max_pages cfg - int (length (rows s))),
                     \<lambda>(en, cfg, s). length (frontier s)]"
    by (auto simp: loop_cond_def)
qed

definition crawl :: "env \<Rightarrow> config \<Rightarrow> state \<Rightarrow> state" where
  "crawl en cfg s = crawl_loop en cfg (crawl_seed cfg s)"

section \<open>The states of a run\<close>

text \<open>
  One pass through the loop of \<open>crawl\<close>: its test and, when the test holds, its body.
  \<open>crawl_after n\<close> is the crawl after the seed and \<open>n\<close> such passes, so the states
  \<open>crawl_after 0\<close>, \<open>crawl_after 1\<close>, ... are the points of a run at which the loop test
  is read, and the run ends in one of them.
\<close>

definition crawl_iteration :: "env \<Rightarrow> config \<Rightarrow> state \<Rightarrow> state" where
  "crawl_iteration en cfg s =
     (let s' = poll_cancel en s in
      if loop_cond cfg s' then crawl_step en cfg s' else s')"

definition crawl_after :: "nat \<Rightarrow> env \<Rightarrow> config \<Rightarrow> state \<Rightarrow> state" where
  "crawl_after n en cfg s = (crawl_iteration en cfg ^^ n) (crawl_seed cfg s)"

declare crawl_loop.simps [simp del]

lemma crawl_loop_iterations: "\<exists>n. crawl_loop en cfg s = (crawl_iteration en cfg ^^ n) s"
proof (induction en cfg s rule: crawl_loop.induct)
  case (1 en cfg s)
  show ?case
  proof (cases "loop_cond cfg (poll_cancel en s)")
    case True
    then have ci: "crawl_iteration en cfg s = crawl_step en cfg (poll_cancel en s)"
      by (simp add: crawl_iteration_def Let_def)
    from True have eq: "crawl_loop en cfg s = crawl_loop en cfg (crawl_step en cfg (poll_cancel en s))"
      by (subst crawl_loop.simps) (simp add: Let_def)
    from "1.IH" [OF refl True]
    obtain n where "crawl_loop en cfg (crawl_step en cfg (poll_cancel en s))
                      = (crawl_iteration en cfg ^^ n) (crawl_step en cfg (poll_cancel en s))"
      by blast
    with eq ci have "crawl_loop en cfg s = (crawl_iteration en cfg ^^ Suc n) s"
      by (simp add: funpow_swap1)
    then show ?thesis by blast
  next
    case False
    then have "crawl_loop en cfg s = (crawl_iteration en cfg ^^ 1) s"
      by (subst crawl_loop.simps) (simp add: crawl_iteration_def Let_def)
    then show ?thesis by blast
  qed
qed

lemma crawl_is_crawl_after: "\<exists>n. crawl en cfg s = crawl_after n en cfg s"
  by (simp add: crawl_def crawl_after_def crawl_loop_iterations)

text \<open>A property that holds after the seed and that every pass keeps holds at every
  point of the run.\<close>

lemma crawl_after_induct:
  assumes "P (crawl_seed cfg s)" and "\<And>t. P t \<Longrightarrow> P (crawl_iteration en cfg t)"
  shows "P (crawl_after n en cfg s)"
  using assms by (induction n) (simp_all add: crawl_after_def)

lemma poll_cancel_fields [simp]:
  "rows (poll_cancel en s) = rows s" "frontier (poll_cancel en s) = frontier s"
  "seen (poll_cancel en s) = seen s" "url_depths (poll_cancel en s) = url_depths s"
  "trace (poll_cancel en s) = trace s"
  by (simp_all add: poll_cancel_def)

lemma set_proxy_fields [simp]:
  "rows (set_proxy cfg s) = rows s" "frontier (set_proxy cfg s) = frontier s"
  "seen (set_proxy cfg s) = seen s" "url_depths (set_proxy cfg s) = url_depths s"
  "cancelled (set_proxy cfg s) = cancelled s" "trace (set_proxy cfg s) = trace s"
  by (simp_all add: set_proxy_def Let_def)

lemma make_state_fields [simp]:
  "rows (make_state en a) = []" "seen (make_state en a) = {}"
  "url_depths (make_state en a) = Map.empty" "trace (make_state en a) = []"
  "frontier (make_state en a) = []"
  by (simp_all add: make_state_def Let_def)

lemma crawl_seed_fields [simp]:
  "rows (crawl_seed cfg s) = rows s"
  "frontier (crawl_seed cfg s) = [(spider_root cfg, 0)]"
  "seen (crawl_seed cfg s) = insert (spider_root cfg) (seen s)"
  "url_depths (crawl_seed cfg s) = (url_depths s)(spider_root cfg \<mapsto> 0)"
  "trace (crawl_seed cfg s) = trace s @ [QueuePut (spider_root cfg) 0]"
  by (simp_all add: crawl_seed_def)

subsection \<open>Records per pass\<close>

lemma crawl_iteration_rows_bound:
  assumes "int (length (rows s)) \<le> max 0 (max_pages cfg)"
  shows "int (length (rows (crawl_iteration en cfg s))) \<le> max 0 (max_pages cfg)"
proof (cases "loop_cond cfg (poll_cancel en s)")
  case True
  then have lt: "int (length (rows s)) < max_pages cfg"
    by (simp add: loop_cond_def)
  from crawl_step_rows [of en cfg "poll_cancel en s"]
  have "length (rows (crawl_step en cfg (poll_cancel en s))) \<le> Suc (length (rows s))"
    by auto
  with lt True show ?thesis
    by (simp add: crawl_iteration_def Let_def)
next
  case False
  with assms show ?thesis
    by (simp add: crawl_iteration_def Let_def)
qed

section \<open>Sample worlds\<close>

text \<open>
  A stand-in for \<open>urljoin\<close> in the examples. It gives what \<open>urllib.parse.urljoin\<close> gives
  for an empty reference (the base), for a reference that is only a fragment (the base
  with its fragment replaced), for a path that starts with one slash (the origin of the
  base followed by the path), and for an absolute URL without dot segments (the
  reference); the examples use no other kind of reference.
\<close>

definition urljoin_sample :: "string \<Rightarrow> string \<Rightarrow> string" where
  "urljoin_sample base ref =
     (if ref = [] then base
      else if prefix ''#'' ref then split_first (CHR ''#'') base @ ref
      else if prefix ''/'' ref \<and> \<not> prefix ''//'' ref
        then scheme (urlparse base) @ ''://'' @ netloc (urlparse base) @ ref
      else ref)"

text \<open>A world where every request fails and nobody cancels.\<close>

definition offline_env :: env where
  "offline_env =
     \<lparr> urljoin = urljoin_sample,
       http_get = (\<lambda>tr u. None),
       robots_read = (\<lambda>tr u. None),
       random_choice = (\<lambda>tr xs. hd xs),
       random_uniform = (\<lambda>tr lo hi. lo),
       cancel_requested = (\<lambda>tr. False),
       log_cb = True, progress_cb = True \<rparr>"

section \<open>The keyword filter\<close>

text \<open>
  What "case-insensitive substring" means, stated without \<open>lower\<close>: two characters are
  the same letter when they are equal or one is an upper-case letter and the other the
  lower-case letter 32 code points above it; \<open>ci_prefix k s\<close> holds when \<open>s\<close> starts with
  \<open>k\<close> letter for letter, and \<open>ci_sublist k s\<close> when \<open>k\<close> occurs so at some position of
  \<open>s\<close>.
\<close>

definition same_letter :: "char \<Rightarrow> char \<Rightarrow> bool" where
  "same_letter a b =
     (a = b
      \<or> (is_upper a \<and> (of_char b :: nat) = of_char a + 32)
      \<or> (is_upper b \<and> (of_char a :: nat) = of_char b + 32))"

fun ci_prefix :: "string \<Rightarrow> string \<Rightarrow> bool" where
  "ci_prefix [] s = True"
| "ci_prefix (k # ks) [] = False"
| "ci_prefix (k # ks) (c # cs) = (same_letter k c \<and> ci_prefix ks cs)"

fun ci_sublist :: "string \<Rightarrow> string \<Rightarrow> bool" where
  "ci_sublist k [] = (k = [])"
| "ci_sublist k (c # cs) = (ci_prefix k (c # cs) \<or> ci_sublist k cs)"

text \<open>The configuration of the example: include \<open>blog\<close>, exclude \<open>draft\<close>; and one
  that excludes the upper-case letter E with acute accent.\<close>

definition blog_config :: config where
  "blog_config =
     make_config offline_env
       ((default_args ''https://site'')
          \<lparr>arg_include_keywords := Some [''blog''], arg_exclude_keywords := Some [''draft'']\<rparr>)"

definition accent_config :: config where
  "accent_config =
     make_config offline_env
       ((default_args ''https://site'')\<lparr>arg_exclude_keywords := Some [[CHR 0xC9]]\<rparr>)"

lemma of_char_lower_char:
  "(of_char (lower_char c) :: nat) = (if is_upper c then of_char c + 32 else of_char c)"
proof (cases "is_upper c")
  case True
  then have "(of_char c :: nat) + 32 < 256"
    by (auto simp: is_upper_def Let_def)
  with True show ?thesis
    by (simp add: lower_char_def)
next
  case False
  then show ?thesis by (simp add: lower_char_def)
qed

lemma lower_char_eq_iff: "lower_char a = lower_char b \<longleftrightarrow> same_letter a b"
proof -
  have "lower_char a = lower_char b
          \<longleftrightarrow> (of_char (lower_char a) :: nat) = of_char (lower_char b)"
    by simp
  also have "\<dots> \<longleftrightarrow> same_letter a b"
  proof -
    have ab: "a = b \<longleftrightarrow> (of_char a :: nat) = of_char b" by simp
    show ?thesis
      unfolding of_char_lower_char same_letter_def ab
      by (auto simp: is_upper_def Let_def)
  qed
  finally show ?thesis .
qed

lemma ci_prefix_iff: "ci_prefix k s \<longleftrightarrow> prefix (py_lower k) (py_lower s)"
  by (induction k s rule: ci_prefix.induct) (simp_all add: py_lower_def lower_char_eq_iff)

lemma ci_sublist_iff: "ci_sublist k s \<longleftrightarrow> sublist (py_lower k) (py_lower s)"
proof (induction s)
  case Nil
  show ?case by (simp add: py_lower_def)
next
  case (Cons c cs)
  have "sublist (py_lower k) (py_lower (c # cs))
          \<longleftrightarrow> prefix (py_lower k) (py_lower (c # cs)) \<or> sublist (py_lower k) (py_lower cs)"
    by (simp add: py_lower_def sublist_Cons_right)
  with Cons show ?case
    by (simp add: ci_prefix_iff)
qed

lemma keyword_loop_iff:
  "keyword_loop ks (py_lower u) \<longleftrightarrow> (\<exists>k \<in> set ks. ci_sublist k u)"
  by (induction ks) (auto simp: ci_sublist_iff)

text \<open>
  C8. The keyword filter accepts a URL exactly when no exclude keyword is a
  case-insensitive substring of it and, if include keywords are configured, at least one
  of them is; a match of an exclude keyword rejects whatever the include keywords say.
\<close>

theorem check_keyword_filters_iff:
  "check_keyword_filters cfg u \<longleftrightarrow>
     \<not> (\<exists>k \<in> set (exclude_keywords cfg). ci_sublist k u)
     \<and> (include_keywords cfg = [] \<or> (\<exists>k \<in> set (include_keywords cfg). ci_sublist k u))"
  by (auto simp: check_keyword_filters_def Let_def keyword_loop_iff)

theorem check_keyword_filters_blog_draft:
  "\<not> check_keyword_filters blog_config ''https://site/blog/draft-1''
   \<and> check_keyword_filters blog_config ''https://site/blog/post-1''
   \<and> \<not> check_keyword_filters blog_config ''https://site/about''
   \<and> \<not> check_keyword_filters blog_config ''https://site/Blog/DRAFT-1''
   \<and> check_keyword_filters blog_config ''https://SITE/BLOG/Post-1''
   \<and> \<not> check_keyword_filters accent_config (''https://site/caf'' @ [CHR 0xE9])
   \<and> check_keyword_filters accent_config ''https://site/cafe''"
proof -
  have cfg: "exclude_keywords blog_config = [''draft'']" "include_keywords blog_config = [''blog'']"
    "exclude_keywords accent_config = [[CHR 0xC9]]" "include_keywords accent_config = []"
    by code_simp+
  have 1: "ci_sublist ''draft'' ''https://site/blog/draft-1''"
    by code_simp
  have 2: "\<not> ci_sublist ''draft'' ''https://site/blog/post-1''"
      "ci_sublist ''blog'' ''https://site/blog/post-1''"
    by code_simp+
  have 3: "\<not> ci_sublist ''blog'' ''https://site/about''"
    by code_simp
  have 4: "ci_sublist ''draft'' ''https://site/Blog/DRAFT-1''"
    by code_simp
  have 5: "\<not> ci_sublist ''draft'' ''https://SITE/BLOG/Post-1''"
      "ci_sublist ''blog'' ''https://SITE/BLOG/Post-1''"
    by code_simp+
  have 6: "ci_sublist [CHR 0xC9] (''https://site/caf'' @ [CHR 0xE9])"
    by code_simp
  have 7: "\<not> ci_sublist [CHR 0xC9] ''https://site/cafe''"
    by code_simp
  show ?thesis
    using check_keyword_filters_iff [of blog_config "''https://site/blog/draft-1''"]
      check_keyword_filters_iff [of blog_config "''https://site/blog/post-1''"]
      check_keyword_filters_iff [of blog_config "''https://site/about''"]
      check_keyword_filters_iff [of blog_config "''https://site/Blog/DRAFT-1''"]
      check_keyword_filters_iff [of blog_config "''https://SITE/BLOG/Post-1''"]
      check_keyword_filters_iff [of accent_config "''https://site/caf'' @ [CHR 0xE9]"]
      check_keyword_filters_iff [of accent_config "''https://site/cafe''"]
    by (simp only: cfg list.set bex_simps insert_iff empty_iff 1 2 3 4 5 6 7 simp_thms list.simps)
qed

text \<open>The code itself at the same inputs, whatever the theorem says.\<close>

lemma check_keyword_filters_mixed_case:
  "\<not> check_keyword_filters blog_config ''https://site/Blog/DRAFT-1''
   \<and> check_keyword_filters blog_config ''https://SITE/BLOG/Post-1''
   \<and> \<not> check_keyword_filters accent_config (''https://site/caf'' @ [CHR 0xE9])
   \<and> py_lower [CHR 0xC9, CHR 0xD7, CHR 0xDE, CHR ''Z'', CHR 0xDF] = [CHR 0xE9, CHR 0xD7, CHR 0xFE, CHR ''z'', CHR 0xDF]"
  by code_simp

section \<open>The URL normalizer\<close>

lemma scheme_urlparse: "scheme (urlparse u) = fst (split_scheme (url_sanitize u))"
  by (simp add: urlparse_def Let_def split_def)

lemma fragment_urlparse:
  "fragment (urlparse u) =
     (let r = snd (split_netloc (snd (split_scheme (url_sanitize u))))
      in drop (Suc (length (split_first (CHR ''#'') r))) r)"
  by (simp add: urlparse_def Let_def split_def)

lemma dropWhile_takeWhile_commute:
  "(\<And>x. P x \<Longrightarrow> Q x) \<Longrightarrow> dropWhile P (takeWhile Q xs) = takeWhile Q (dropWhile P xs)"
  by (induction xs) auto

lemma filter_takeWhile_commute:
  "(\<And>x. \<not> Q x \<Longrightarrow> R x) \<Longrightarrow> filter R (takeWhile Q xs) = takeWhile Q (filter R xs)"
  by (induction xs) auto

lemma hash_not_dropped: "\<not> c0_control_or_space (CHR ''#'')" "\<not> unsafe_url_byte (CHR ''#'')"
  by code_simp+

lemma hash_not_scheme_char: "\<not> scheme_char (CHR ''#'')"
  by code_simp

lemma url_sanitize_split_first:
  "url_sanitize (split_first (CHR ''#'') u) = split_first (CHR ''#'') (url_sanitize u)"
proof -
  have "dropWhile c0_control_or_space (takeWhile (\<lambda>c. c \<noteq> CHR ''#'') u)
          = takeWhile (\<lambda>c. c \<noteq> CHR ''#'') (dropWhile c0_control_or_space u)"
    by (rule dropWhile_takeWhile_commute) (use hash_not_dropped in auto)
  moreover have "\<And>xs. filter (\<lambda>c. \<not> unsafe_url_byte c) (takeWhile (\<lambda>c. c \<noteq> CHR ''#'') xs)
          = takeWhile (\<lambda>c. c \<noteq> CHR ''#'') (filter (\<lambda>c. \<not> unsafe_url_byte c) xs)"
    by (rule filter_takeWhile_commute) (use hash_not_dropped in auto)
  ultimately show ?thesis
    by (simp add: url_sanitize_def split_first_def py_lstrip_def)
qed

text \<open>Cutting a URL at its first \<open>#\<close> keeps the scheme it has.\<close>

lemma split_scheme_split_first:
  assumes "fst (split_scheme s) \<noteq> []"
  shows "fst (split_scheme (split_first (CHR ''#'') s)) = fst (split_scheme s)"
proof -
  define pre where "pre = takeWhile (\<lambda>c. c \<noteq> CHR '':'') s"
  from assms have c: "pre \<noteq> []" "length pre < length s" "ascii_alpha (hd pre)" "list_all scheme_char pre"
    and sch: "fst (split_scheme s) = py_lower pre"
    by (auto simp: split_scheme_def Let_def pre_def split: if_splits)
  have s: "s = pre @ dropWhile (\<lambda>c. c \<noteq> CHR '':'') s"
    by (simp add: pre_def)
  have ne: "dropWhile (\<lambda>c. c \<noteq> CHR '':'') s \<noteq> []"
  proof
    assume "dropWhile (\<lambda>c. c \<noteq> CHR '':'') s = []"
    with s have "s = pre" by simp
    with c(2) show False by simp
  qed
  then obtain c rest where d0: "dropWhile (\<lambda>c. c \<noteq> CHR '':'') s = c # rest"
    by (cases "dropWhile (\<lambda>c. c \<noteq> CHR '':'') s") auto
  from hd_dropWhile [OF ne] have "c = CHR '':''"
    by (simp add: d0)
  with d0 have d: "dropWhile (\<lambda>c. c \<noteq> CHR '':'') s = CHR '':'' # rest"
    by simp
  have nohash: "\<forall>c \<in> set pre. c \<noteq> CHR ''#''"
    using c(4) hash_not_scheme_char by (auto simp: list_all_iff)
  have cut: "takeWhile (\<lambda>c. c \<noteq> CHR ''#'') s = pre @ CHR '':'' # takeWhile (\<lambda>c. c \<noteq> CHR ''#'') rest"
    by (subst s, subst d) (simp add: takeWhile_append2 nohash)
  have nocolon: "\<forall>c \<in> set pre. c \<noteq> CHR '':''"
    unfolding pre_def by (auto dest: set_takeWhileD)
  have pre': "takeWhile (\<lambda>c. c \<noteq> CHR '':'') (takeWhile (\<lambda>c. c \<noteq> CHR ''#'') s) = pre"
    by (subst cut) (simp add: takeWhile_append2 nocolon)
  have "length pre < length (takeWhile (\<lambda>c. c \<noteq> CHR ''#'') s)"
    by (subst cut) simp
  with c pre' have "fst (split_scheme (split_first (CHR ''#'') s)) = py_lower pre"
    by (simp add: split_scheme_def Let_def split_first_def)
  then show ?thesis
    by (simp only: sch)
qed

lemma scheme_split_first:
  "scheme (urlparse u) \<noteq> [] \<Longrightarrow> scheme (urlparse (split_first (CHR ''#'') u)) = scheme (urlparse u)"
  by (simp add: scheme_urlparse url_sanitize_split_first split_scheme_split_first)

lemma set_snd_split_scheme: "set (snd (split_scheme s)) \<subseteq> set s"
  by (auto simp: split_scheme_def Let_def dest: in_set_dropD)

lemma set_snd_split_netloc: "set (snd (split_netloc s)) \<subseteq> set s"
  by (auto simp: split_netloc_def dest: in_set_dropD set_dropWhileD)

lemma set_url_sanitize: "set (url_sanitize u) \<subseteq> set u"
  by (auto simp: url_sanitize_def py_lstrip_def dest: set_dropWhileD)

lemma fragment_without_hash:
  assumes "CHR ''#'' \<notin> set u"
  shows "fragment (urlparse u) = []"
proof -
  let ?r = "snd (split_netloc (snd (split_scheme (url_sanitize u))))"
  have "set ?r \<subseteq> set u"
    using set_snd_split_netloc set_snd_split_scheme set_url_sanitize by blast
  with assms have "CHR ''#'' \<notin> set ?r" by blast
  then have "split_first (CHR ''#'') ?r = ?r"
    by (auto simp: split_first_def takeWhile_eq_all_conv)
  then show ?thesis by (simp add: fragment_urlparse Let_def)
qed

lemma split_first_no_sep: "sep \<notin> set (split_first sep s)"
  by (auto simp: split_first_def dest: set_takeWhileD)

text \<open>
  C6. Whenever \<open>normalize_link\<close> returns a URL, the scheme of that URL is \<open>http\<close> or
  \<open>https\<close>, the URL contains no \<open>#\<close>, and its fragment component is empty; this holds
  whatever \<open>urljoin\<close> computes.
\<close>

theorem normalize_link_scheme_fragment:
  assumes "normalize_link join base_url href = Some u"
  shows "scheme (urlparse u) \<in> {''http'', ''https''}
         \<and> CHR ''#'' \<notin> set u \<and> fragment (urlparse u) = []"
proof -
  define a where "a = join base_url (py_strip py_isspace href)"
  from assms have sch: "scheme (urlparse a) \<in> ALLOWED_SCHEMES" and u: "u = split_first (CHR ''#'') a"
    by (auto simp: normalize_link_def Let_def a_def split: if_splits)
  from sch have "scheme (urlparse a) \<noteq> []"
    by (auto simp: ALLOWED_SCHEMES_def)
  then have "scheme (urlparse u) = scheme (urlparse a)"
    unfolding u by (rule scheme_split_first)
  moreover have "CHR ''#'' \<notin> set u"
    unfolding u by (rule split_first_no_sep)
  ultimately show ?thesis
    using sch fragment_without_hash by (simp add: ALLOWED_SCHEMES_def)
qed

theorem normalize_link_relative_example:
  "normalize_link urljoin_sample ''https://x.test/docs'' ''/a#sec'' = Some ''https://x.test/a''
   \<and> scheme (urlparse ''https://x.test/a'') \<in> {''http'', ''https''}
   \<and> CHR ''#'' \<notin> set ''https://x.test/a''
   \<and> fragment (urlparse ''https://x.test/a'') = []"
proof -
  have e: "normalize_link urljoin_sample ''https://x.test/docs'' ''/a#sec'' = Some ''https://x.test/a''"
    by code_simp
  from normalize_link_scheme_fragment [OF e] e show ?thesis by simp
qed

lemma normalize_link_empty_href: "normalize_link join base_url [] = None"
  by (simp add: normalize_link_def)

text \<open>
  C7. An empty href is rejected (\<open>normalize_link_empty_href\<close>). An href that is only a
  fragment is not: the test for it in the source guards two \<open>pass\<close> statements, so the
  href is joined to the base like any other, and the base URL comes back.
\<close>

theorem normalize_link_fragment_href:
  "normalize_link urljoin_sample ''https://x.test/a'' ''#top'' = Some ''https://x.test/a''"
  by code_simp

section \<open>The page cap\<close>

text \<open>A site without end: the page at \<open>u\<close> links to \<open>u/a\<close>. The crawl of it below has a
  page cap of 5 and does not consult \<open>robots.txt\<close>.\<close>

definition chain_env :: env where
  "chain_env =
     \<lparr> urljoin = urljoin_sample,
       http_get = (\<lambda>tr u. Some \<lparr>html = ''<html>'', soup_title = Some (Some ''Page''),
                                  anchors = [u @ ''/a'']\<rparr>),
       robots_read = (\<lambda>tr u. None),
       random_choice = (\<lambda>tr xs. hd xs),
       random_uniform = (\<lambda>tr lo hi. lo),
       cancel_requested = (\<lambda>tr. False),
       log_cb = False, progress_cb = False \<rparr>"

definition chain_args :: spider_args where
  "chain_args = (default_args ''https://x.test/'')\<lparr>arg_max_pages := 5, arg_respect_robots := False\<rparr>"

lemma chain_crawl_rows:
  "map url (rows (crawl chain_env (make_config chain_env chain_args) (make_state chain_env chain_args)))
     = [''https://x.test'', ''https://x.test/a'', ''https://x.test/a/a'', ''https://x.test/a/a/a'',
        ''https://x.test/a/a/a/a'']"
  by code_simp

lemma crawl_after_rows_bound:
  assumes "int (length (rows s)) \<le> max 0 (max_pages cfg)"
  shows "int (length (rows (crawl_after n en cfg s))) \<le> max 0 (max_pages cfg)"
  by (rule crawl_after_induct) (use assms crawl_iteration_rows_bound in simp_all)

lemma max_pages_make_config [simp]: "max_pages (make_config en a) = arg_max_pages a"
  by (simp add: make_config_def)


text \<open>
  C2. At every point of a crawl run (after the seed and after each pass through the
  loop), and so at its end, the number of records is at most the page cap; the loop is
  total, so every run ends. On the endless site with a page cap of 5 the run ends with
  exactly 5 records.
\<close>

theorem rows_within_page_cap:
  "int (length (rows (crawl_after n en (make_config en a) (make_state en a)))) \<le> max 0 (arg_max_pages a)
   \<and> int (length (rows (crawl en (make_config en a) (make_state en a)))) \<le> max 0 (arg_max_pages a)
   \<and> length (rows (crawl chain_env (make_config chain_env chain_args) (make_state chain_env chain_args))) = 5"
proof -
  have b: "int (length (rows (crawl_after n en (make_config en a) (make_state en a)))) \<le> max 0 (arg_max_pages a)"
    for n
    using crawl_after_rows_bound [of "make_state en a" "make_config en a" n en] by simp
  obtain m where "crawl en (make_config en a) (make_state en a)
                    = crawl_after m en (make_config en a) (make_state en a)"
    using crawl_is_crawl_after by blast
  with b [of m]
  have c: "int (length (rows (crawl en (make_config en a) (make_state en a)))) \<le> max 0 (arg_max_pages a)"
    by simp
  have "length (map url (rows (crawl chain_env (make_config chain_env chain_args) (make_state chain_env chain_args)))) = 5"
    by (simp only: chain_crawl_rows list.size)
  then have d: "length (rows (crawl chain_env (make_config chain_env chain_args) (make_state chain_env chain_args))) = 5"
    by (simp only: length_map)
  from b c d show ?thesis by (intro conjI)
qed

theorem rows_within_page_cap_chain:
  "int (length (rows (crawl chain_env (make_config chain_env chain_args) (make_state chain_env chain_args)))) \<le> 5
   \<and> length (rows (crawl chain_env (make_config chain_env chain_args) (make_state chain_env chain_args))) = 5"
proof -
  have cap: "max 0 (arg_max_pages chain_args) = 5"
    by (simp add: chain_args_def)
  from rows_within_page_cap [of 0 chain_env chain_args]
  have "int (length (rows (crawl chain_env (make_config chain_env chain_args) (make_state chain_env chain_args))))
          \<le> max 0 (arg_max_pages chain_args)"
    and "length (rows (crawl chain_env (make_config chain_env chain_args) (make_state chain_env chain_args))) = 5"
    by blast+
  then show ?thesis
    by (simp only: cap simp_thms)
qed

section \<open>The visited set\<close>

text \<open>What the run maintains: no URL was put on the queue twice, and the URLs put on the
  queue are exactly the visited set.\<close>

definition visited_inv :: "state \<Rightarrow> bool" where
  "visited_inv s = (distinct (enqueued (trace s)) \<and> set (enqueued (trace s)) = seen s)"

lemma visited_inv_quiet: "quiet s s' \<Longrightarrow> visited_inv s \<Longrightarrow> visited_inv s'"
  by (simp add: quiet_def visited_inv_def)

lemma visited_inv_queue_link: "visited_inv s \<Longrightarrow> visited_inv (queue_link en cfg u h s)"
  by (auto simp: queue_link_def visited_inv_def split_def split: option.splits)

lemma visited_inv_queue_links: "visited_inv s \<Longrightarrow> visited_inv (queue_links en cfg u hs s)"
  by (induction hs arbitrary: s) (simp_all add: visited_inv_queue_link)

lemma visited_inv_visit_page: "visited_inv s \<Longrightarrow> visited_inv (visit_page en cfg u pg s)"
proof -
  assume v: "visited_inv s"
  let ?s1 = "s\<lparr>rows := rows s @ [\<lparr>title = page_title pg u, category = page_category u, url = u\<rparr>]\<rparr>"
  let ?s2 = "if progress_cb en then emit (Progress (page_title pg u) (html pg)) ?s1 else ?s1"
  from v have "visited_inv ?s2"
    by (simp add: visited_inv_def)
  then have "visited_inv (queue_links en cfg u (anchors pg) ?s2)"
    by (rule visited_inv_queue_links)
  then show ?thesis
    by (simp add: visit_page_def Let_def visited_inv_def)
qed

lemma visited_inv_crawl_step: "visited_inv s \<Longrightarrow> visited_inv (crawl_step en cfg s)"
proof (cases rule: crawl_step_cases [of s en cfg])
  case skip
  assume "visited_inv s"
  then have "visited_inv (s\<lparr>frontier := tl (frontier s)\<rparr>)"
    by (simp add: visited_inv_def)
  with skip show ?thesis by (rule visited_inv_quiet)
next
  case (visit pg s')
  assume "visited_inv s"
  then have "visited_inv (s\<lparr>frontier := tl (frontier s)\<rparr>)"
    by (simp add: visited_inv_def)
  with visit(1) have "visited_inv s'" by (rule visited_inv_quiet)
  then show ?thesis unfolding visit(2) by (rule visited_inv_visit_page)
qed

lemma visited_inv_crawl_iteration: "visited_inv s \<Longrightarrow> visited_inv (crawl_iteration en cfg s)"
proof -
  assume "visited_inv s"
  then have "visited_inv (poll_cancel en s)"
    by (simp add: visited_inv_def)
  then show ?thesis
    by (simp add: crawl_iteration_def Let_def visited_inv_crawl_step)
qed

lemma visited_inv_crawl_after: "visited_inv (crawl_after n en (make_config en a) (make_state en a))"
  by (rule crawl_after_induct) (simp_all add: visited_inv_def visited_inv_crawl_iteration [unfolded visited_inv_def])

text \<open>
  C1. At every point of a crawl run, and at its end, the URLs put on the frontier queue
  are pairwise distinct, so no URL is enqueued twice, however many pages link to it; and
  they are exactly the visited set: a URL is enqueued only when it is not in the set,
  and is added to the set as it is enqueued, the root with the seed.
\<close>

theorem enqueued_at_most_once:
  "distinct (enqueued (trace (crawl_after n en (make_config en a) (make_state en a))))
   \<and> set (enqueued (trace (crawl_after n en (make_config en a) (make_state en a))))
       = seen (crawl_after n en (make_config en a) (make_state en a))
   \<and> distinct (enqueued (trace (crawl en (make_config en a) (make_state en a))))
   \<and> set (enqueued (trace (crawl en (make_config en a) (make_state en a))))
       = seen (crawl en (make_config en a) (make_state en a))"
proof -
  obtain m where "crawl en (make_config en a) (make_state en a)
                    = crawl_after m en (make_config en a) (make_state en a)"
    using crawl_is_crawl_after by blast
  with visited_inv_crawl_after [of n en a] visited_inv_crawl_after [of m en a]
  show ?thesis
    by (simp add: visited_inv_def)
qed

section \<open>The depth index\<close>

lemma get_url_depth_stored: "url_depths s u = Some d \<Longrightarrow> get_url_depth cfg s u = (d, s)"
  by (simp add: get_url_depth_def)

lemma get_url_depth_map_le: "url_depths s \<subseteq>\<^sub>m url_depths (snd (get_url_depth cfg s u))"
  by (auto simp: get_url_depth_def Let_def map_le_def split: option.splits)

lemma queue_link_map_le: "url_depths s \<subseteq>\<^sub>m url_depths (queue_link en cfg u h s)"
  using get_url_depth_map_le [of s cfg]
  by (auto simp: queue_link_def split_def split: option.splits)

lemma queue_links_map_le: "url_depths s \<subseteq>\<^sub>m url_depths (queue_links en cfg u hs s)"
proof (induction hs arbitrary: s)
  case Nil
  show ?case by simp
next
  case (Cons h hs)
  have "url_depths s \<subseteq>\<^sub>m url_depths (queue_link en cfg u h s)"
    by (rule queue_link_map_le)
  also have "\<dots> \<subseteq>\<^sub>m url_depths (queue_links en cfg u hs (queue_link en cfg u h s))"
    by (rule Cons)
  finally (map_le_trans) show ?case by simp
qed

lemma visit_page_map_le: "url_depths s \<subseteq>\<^sub>m url_depths (visit_page en cfg u pg s)"
proof -
  let ?s1 = "s\<lparr>rows := rows s @ [\<lparr>title = page_title pg u, category = page_category u, url = u\<rparr>]\<rparr>"
  let ?s2 = "if progress_cb en then emit (Progress (page_title pg u) (html pg)) ?s1 else ?s1"
  have "url_depths ?s2 = url_depths s" by simp
  with queue_links_map_le [of ?s2 en cfg u "anchors pg"] show ?thesis
    by (simp add: visit_page_def Let_def)
qed

lemma crawl_step_map_le: "url_depths s \<subseteq>\<^sub>m url_depths (crawl_step en cfg s)"
proof (cases rule: crawl_step_cases [of s en cfg])
  case skip
  then show ?thesis by (simp add: quiet_def)
next
  case (visit pg s')
  then have "url_depths s' = url_depths s" by (simp add: quiet_def)
  with visit_page_map_le [of s' en cfg _ pg] show ?thesis
    unfolding visit(2) by simp
qed

lemma crawl_iteration_map_le: "url_depths s \<subseteq>\<^sub>m url_depths (crawl_iteration en cfg s)"
  using crawl_step_map_le [of "poll_cancel en s" en cfg]
  by (simp add: crawl_iteration_def Let_def)

lemma crawl_after_map_le:
  "m \<le> n \<Longrightarrow> url_depths (crawl_after m en cfg s) \<subseteq>\<^sub>m url_depths (crawl_after n en cfg s)"
proof (induction n)
  case 0
  then show ?case by simp
next
  case (Suc n)
  show ?case
  proof (cases "m = Suc n")
    case True
    then show ?thesis by simp
  next
    case False
    with Suc have "url_depths (crawl_after m en cfg s) \<subseteq>\<^sub>m url_depths (crawl_after n en cfg s)"
      by simp
    moreover have "crawl_after (Suc n) en cfg s = crawl_iteration en cfg (crawl_after n en cfg s)"
      by (simp add: crawl_after_def)
    ultimately show ?thesis
      using crawl_iteration_map_le map_le_trans by metis
  qed
qed

lemma crawl_after_stored:
  assumes "m \<le> n" "url_depths (crawl_after m en cfg s) u = Some d"
  shows "url_depths (crawl_after n en cfg s) u = Some d"
  using crawl_after_map_le [OF assms(1), of en cfg s] assms(2)
  by (auto simp: map_le_def dom_def)

lemma crawl_after_root_depth: "url_depths (crawl_after n en cfg s) (spider_root cfg) = Some 0"
  using crawl_after_stored [of 0 n en cfg s "spider_root cfg" 0]
  by (simp add: crawl_after_def)

text \<open>
  C5. The queue is seeded with the root at depth 0, and at every point of a run the depth
  stored for the root is 0. A depth that is stored for a URL is what the depth
  computation returns for it, and the computation then changes nothing; and once a
  depth is stored for a URL at some point of a run, the same depth is stored for it at
  every later point.
\<close>

theorem depth_first_value_wins:
  "frontier (crawl_seed cfg s) = [(spider_root cfg, 0)]
   \<and> url_depths (crawl_after n en cfg s) (spider_root cfg) = Some 0
   \<and> get_url_depth cfg (crawl_after n en cfg s) (spider_root cfg) = (0, crawl_after n en cfg s)
   \<and> (url_depths t u = Some d \<longrightarrow> get_url_depth cfg t u = (d, t))
   \<and> (m \<le> n \<and> url_depths (crawl_after m en cfg s) u = Some d
        \<longrightarrow> url_depths (crawl_after n en cfg s) u = Some d)"
  using crawl_after_root_depth [of n en cfg s] crawl_after_stored [of m n en cfg s u d]
    get_url_depth_stored [of t u d cfg]
    get_url_depth_stored [of "crawl_after n en cfg s" "spider_root cfg" 0 cfg]
  by simp

section \<open>A sample site\<close>

text \<open>
  Four pages under \<open>https://x.test\<close>: the home page links to \<open>/a\<close>, \<open>/b\<close>, another
  origin and an anchor of its own; \<open>/a\<close> and \<open>/b\<close> link to each other and both to
  \<open>/c\<close>; the title of \<open>/b\<close> is blank; every request for \<open>/c\<close> fails.
  \<open>robots.txt\<close> cannot be read. The crawl of it starts from \<open>https://x.test/\<close> with at
  most two retries and every other argument at its default.
\<close>

definition site_page :: "string \<Rightarrow> page option" where
  "site_page u =
     (if u = ''https://x.test'' then
        Some \<lparr>html = ''<home>'', soup_title = Some (Some ''Home''),
              anchors = [''/a'', ''/b'', ''https://other.test/b'', ''#top'']\<rparr>
      else if u = ''https://x.test/a'' then
        Some \<lparr>html = ''<a>'', soup_title = Some (Some '' A page ''), anchors = [''/c'', ''/b'']\<rparr>
      else if u = ''https://x.test/b'' then
        Some \<lparr>html = ''<b>'', soup_title = Some (Some ''  ''), anchors = [''/c'', ''/a'']\<rparr>
      else None)"

definition site_env :: env where
  "site_env =
     \<lparr> urljoin = urljoin_sample,
       http_get = (\<lambda>tr u. site_page u),
       robots_read = (\<lambda>tr u. None),
       random_choice = (\<lambda>tr xs. hd xs),
       random_uniform = (\<lambda>tr lo hi. lo),
       cancel_requested = (\<lambda>tr. False),
       log_cb = True, progress_cb = True \<rparr>"

definition site_args :: spider_args where
  "site_args = (default_args ''https://x.test/'')\<lparr>arg_max_retries := 2\<rparr>"

definition site_config :: config where
  "site_config = make_config site_env site_args"

definition site_crawl :: state where
  "site_crawl = crawl site_env site_config (make_state site_env site_args)"

text \<open>What the examples read of a state: the records, the trace, and the depth stored
  for each of the given URLs.\<close>

definition summary :: "string list \<Rightarrow> state \<Rightarrow> Row list \<times> event list \<times> int option list" where
  "summary us s = (rows s, trace s, map (url_depths s) us)"

lemma summaryD:
  "summary us s = (r, t, d) \<Longrightarrow> rows s = r \<and> trace s = t \<and> map (url_depths s) us = d"
  by (simp add: summary_def)

lemma site_crawl_summary:
  "summary [''https://x.test'', ''https://x.test/a'', ''https://x.test/b'', ''https://x.test/c'',
            ''https://other.test/b''] site_crawl =
   ([\<lparr>title = ''Home'', category = [], url = ''https://x.test''\<rparr>,
     \<lparr>title = ''A page'', category = ''a'', url = ''https://x.test/a''\<rparr>,
     \<lparr>title = [], category = ''b'', url = ''https://x.test/b''\<rparr>],
    [QueuePut ''https://x.test'' 0, RobotsRead ''https://x.test/robots.txt'',
     Log (LogGet ''https://x.test'' 0), HttpGet ''https://x.test'',
     Progress ''Home'' ''<home>'', QueuePut ''https://x.test/a'' 1,
     QueuePut ''https://x.test/b'' 1, Sleep (3 / 10),
     RobotsRead ''https://x.test/robots.txt'',
     Log (LogGet ''https://x.test/a'' 1), HttpGet ''https://x.test/a'',
     Progress ''A page'' ''<a>'', QueuePut ''https://x.test/c'' 1,
     Sleep (3 / 10), RobotsRead ''https://x.test/robots.txt'',
     Log (LogGet ''https://x.test/b'' 1), HttpGet ''https://x.test/b'',
     Progress [] ''<b>'', Sleep (3 / 10),
     RobotsRead ''https://x.test/robots.txt'',
     Log (LogGet ''https://x.test/c'' 1), HttpGet ''https://x.test/c'',
     Log (LogRetrying 1), Sleep 1, Log (LogRetry 1 2 ''https://x.test/c''),
     HttpGet ''https://x.test/c'', Log (LogRetrying 2), Sleep 2,
     Log (LogRetry 2 2 ''https://x.test/c''), HttpGet ''https://x.test/c'',
     Log (LogFailed 2)],
    [Some 0, Some 1, Some 1, Some 1, None])"
  by code_simp

lemma site_crawl_rows:
  "rows site_crawl =
     [\<lparr>title = ''Home'', category = [], url = ''https://x.test''\<rparr>,
      \<lparr>title = ''A page'', category = ''a'', url = ''https://x.test/a''\<rparr>,
      \<lparr>title = [], category = ''b'', url = ''https://x.test/b''\<rparr>]"
  using summaryD [OF site_crawl_summary] by (rule conjunct1)

lemma site_crawl_trace:
  "trace site_crawl =
    [QueuePut ''https://x.test'' 0, RobotsRead ''https://x.test/robots.txt'',
     Log (LogGet ''https://x.test'' 0), HttpGet ''https://x.test'',
     Progress ''Home'' ''<home>'', QueuePut ''https://x.test/a'' 1,
     QueuePut ''https://x.test/b'' 1, Sleep (3 / 10),
     RobotsRead ''https://x.test/robots.txt'',
     Log (LogGet ''https://x.test/a'' 1), HttpGet ''https://x.test/a'',
     Progress ''A page'' ''<a>'', QueuePut ''https://x.test/c'' 1,
     Sleep (3 / 10), RobotsRead ''https://x.test/robots.txt'',
     Log (LogGet ''https://x.test/b'' 1), HttpGet ''https://x.test/b'',
     Progress [] ''<b>'', Sleep (3 / 10),
     RobotsRead ''https://x.test/robots.txt'',
     Log (LogGet ''https://x.test/c'' 1), HttpGet ''https://x.test/c'',
     Log (LogRetrying 1), Sleep 1, Log (LogRetry 1 2 ''https://x.test/c''),
     HttpGet ''https://x.test/c'', Log (LogRetrying 2), Sleep 2,
     Log (LogRetry 2 2 ''https://x.test/c''), HttpGet ''https://x.test/c'',
     Log (LogFailed 2)]"
  using summaryD [OF site_crawl_summary] by (elim conjE)

lemma site_crawl_enqueued:
  "enqueued (trace site_crawl)
     = [''https://x.test'', ''https://x.test/a'', ''https://x.test/b'', ''https://x.test/c'']"
  by (simp only: site_crawl_trace enqueued_simps)

lemma site_after_one_summary:
  "summary [''https://x.test/a''] (crawl_after 1 site_env site_config (make_state site_env site_args)) =
   ([\<lparr>title = ''Home'', category = [], url = ''https://x.test''\<rparr>],
    [QueuePut ''https://x.test'' 0, RobotsRead ''https://x.test/robots.txt'',
     Log (LogGet ''https://x.test'' 0), HttpGet ''https://x.test'',
     Progress ''Home'' ''<home>'', QueuePut ''https://x.test/a'' 1,
     QueuePut ''https://x.test/b'' 1, Sleep (3 / 10)],
    [Some 1])"
  by code_simp

lemma site_after_one_rows:
  "rows (crawl_after 1 site_env site_config (make_state site_env site_args))
     = [\<lparr>title = ''Home'', category = [], url = ''https://x.test''\<rparr>]"
  using summaryD [OF site_after_one_summary] by (rule conjunct1)

lemma site_after_one_depth:
  "url_depths (crawl_after 1 site_env site_config (make_state site_env site_args)) ''https://x.test/a'' = Some 1"
  using summaryD [OF site_after_one_summary] by simp

theorem enqueued_at_most_once_site:
  "distinct (enqueued (trace site_crawl))
   \<and> enqueued (trace site_crawl)
       = [''https://x.test'', ''https://x.test/a'', ''https://x.test/b'', ''https://x.test/c'']"
proof -
  from enqueued_at_most_once [of 0 site_env site_args]
  have "distinct (enqueued (trace (crawl site_env (make_config site_env site_args) (make_state site_env site_args))))"
    by blast
  then have "distinct (enqueued (trace site_crawl))"
    by (simp only: site_crawl_def site_config_def)
  with site_crawl_enqueued show ?thesis
    by (rule_tac conjI)
qed

theorem depth_first_value_wins_site:
  "url_depths (crawl_after 1 site_env site_config (make_state site_env site_args)) ''https://x.test/a'' = Some 1
   \<and> url_depths (crawl_after 4 site_env site_config (make_state site_env site_args)) ''https://x.test/a'' = Some 1
   \<and> get_url_depth site_config (crawl_after 1 site_env site_config (make_state site_env site_args)) ''https://x.test/a''
       = (1, crawl_after 1 site_env site_config (make_state site_env site_args))
   \<and> url_depths (crawl_after 4 site_env site_config (make_state site_env site_args)) (spider_root site_config) = Some 0"
proof -
  let ?s = "make_state site_env site_args"
  let ?t = "crawl_after 1 site_env site_config ?s"
  note inst = depth_first_value_wins [of site_config ?s 4 site_env ?t "''https://x.test/a''" 1 1]
  have le: "(1::nat) \<le> 4" by simp
  from inst site_after_one_depth le show ?thesis
    by blast
qed

section \<open>The record of a page\<close>

text \<open>\<open>strip\<close> removes characters of the class from both ends, and only those.\<close>

lemma py_strip_decomp:
  "\<exists>a b. t = a @ py_strip p t @ b \<and> list_all p a \<and> list_all p b"
proof -
  let ?m = "dropWhile p t"
  have 1: "t = takeWhile p t @ ?m" by simp
  have "rev (dropWhile p (rev ?m)) @ rev (takeWhile p (rev ?m))
          = rev (takeWhile p (rev ?m) @ dropWhile p (rev ?m))"
    by (simp only: rev_append)
  also have "\<dots> = ?m"
    by (simp only: takeWhile_dropWhile_id rev_rev_ident)
  finally have 2: "?m = rev (dropWhile p (rev ?m)) @ rev (takeWhile p (rev ?m))"
    by (rule sym)
  have 3: "list_all p (takeWhile p t)" "list_all p (rev (takeWhile p (rev ?m)))"
    by (auto simp: list_all_iff dest: set_takeWhileD)
  from 1 2 have "t = takeWhile p t @ py_strip p t @ rev (takeWhile p (rev ?m))"
    by (simp add: py_strip_def py_rstrip_def py_lstrip_def)
  with 3 show ?thesis by blast
qed

lemma py_rstrip_last: "py_rstrip p t \<noteq> [] \<Longrightarrow> \<not> p (last (py_rstrip p t))"
  using hd_dropWhile [of p "rev t"] by (simp add: py_rstrip_def last_rev)

lemma py_strip_ends:
  assumes "py_strip p t \<noteq> []"
  shows "\<not> p (hd (py_strip p t)) \<and> \<not> p (last (py_strip p t))"
proof -
  let ?m = "dropWhile p t"
  from assms have d: "dropWhile p (rev ?m) \<noteq> []"
    by (simp add: py_strip_def py_rstrip_def py_lstrip_def)
  have ne: "?m \<noteq> []"
  proof
    assume e: "?m = []"
    have "dropWhile p (rev ?m) = []" unfolding e by simp
    with d show False by blast
  qed
  have "hd (py_strip p t) = last (dropWhile p (rev ?m))"
    using d by (simp add: py_strip_def py_rstrip_def py_lstrip_def hd_rev)
  also have "\<dots> = last (rev ?m)"
  proof -
    have "rev ?m = takeWhile p (rev ?m) @ dropWhile p (rev ?m)" by simp
    then have "last (rev ?m) = last (takeWhile p (rev ?m) @ dropWhile p (rev ?m))" by simp
    also have "\<dots> = last (dropWhile p (rev ?m))" using d by (rule last_appendR)
    finally show ?thesis by simp
  qed
  also have "\<dots> = hd ?m" using ne by (simp add: last_rev)
  finally have "hd (py_strip p t) = hd ?m" .
  moreover have "\<not> p (hd ?m)" using ne by (rule hd_dropWhile)
  moreover have "\<not> p (last (py_strip p t))"
    using assms py_rstrip_last [of p "py_lstrip p t"] by (simp add: py_strip_def)
  ultimately show ?thesis by simp
qed

text \<open>The pieces of \<open>split\<close>.\<close>

lemma py_split_not_Nil [simp]: "py_split sep s \<noteq> []"
  by (induction s) (auto split: list.splits)

lemma hd_py_split: "hd (py_split sep s) = takeWhile (\<lambda>c. c \<noteq> sep) s"
  by (induction s) (auto split: list.splits)

lemma py_split_snoc_sep: "py_split sep (s @ [sep]) = py_split sep s @ [[]]"
  by (induction s) (auto split: list.splits)

definition segments :: "string \<Rightarrow> string list" where
  "segments p = filter (\<lambda>w. w \<noteq> []) (py_split (CHR ''/'') p)"

lemma segments_lstrip: "segments (dropWhile (\<lambda>c. c = CHR ''/'') p) = segments p"
  by (induction p) (auto simp: segments_def)

lemma segments_rstrip_rev: "segments (rev (dropWhile (\<lambda>c. c = CHR ''/'') xs)) = segments (rev xs)"
  by (induction xs) (auto simp: segments_def py_split_snoc_sep)

lemma segments_strip: "segments (py_strip (\<lambda>c. c = CHR ''/'') p) = segments p"
  using segments_rstrip_rev [of "rev (dropWhile (\<lambda>c. c = CHR ''/'') p)"]
  by (simp add: py_strip_def py_rstrip_def py_lstrip_def segments_lstrip)

text \<open>The category is the first non-empty segment of the path, or empty when there is
  none.\<close>

lemma page_category_first_segment:
  "page_category u = (case segments (path (urlparse u)) of [] \<Rightarrow> [] | w # ws \<Rightarrow> w)"
proof -
  let ?p = "py_strip (\<lambda>c. c = CHR ''/'') (path (urlparse u))"
  show ?thesis
  proof (cases "?p = []")
    case True
    then have "segments (path (urlparse u)) = []"
      using segments_strip [of "path (urlparse u)"] by (simp add: segments_def)
    with True show ?thesis by (simp add: page_category_def Let_def)
  next
    case False
    then have "hd ?p \<noteq> CHR ''/''" using py_strip_ends [of "\<lambda>c. c = CHR ''/''"] by blast
    with False have "takeWhile (\<lambda>c. c \<noteq> CHR ''/'') ?p \<noteq> []"
      by (cases ?p) auto
    then have ne: "hd (py_split (CHR ''/'') ?p) \<noteq> []"
      by (simp only: hd_py_split not_False_eq_True)
    obtain w ws where s: "py_split (CHR ''/'') ?p = w # ws"
      by (cases "py_split (CHR ''/'') ?p") auto
    with ne have "segments ?p = w # filter (\<lambda>w. w \<noteq> []) ws"
      by (simp add: segments_def)
    then have "segments (path (urlparse u)) = w # filter (\<lambda>w. w \<noteq> []) ws"
      by (simp add: segments_strip)
    with False s show ?thesis by (simp add: page_category_def Let_def)
  qed
qed

text \<open>
  C9, as the code has it. The record of a fetched page has the URL of the page; its
  category is the first non-empty segment of the URL's path, or the empty string when
  the path has none; its title is the URL when the document has no title, when the
  title has no single string, and when that string is empty, and otherwise the title's
  string with the whitespace at both ends removed. The test for an empty title is made
  before trimming.
\<close>

theorem visit_page_record:
  "\<exists>r. rows (visit_page en cfg u pg s) = rows s @ [r]
       \<and> url r = u
       \<and> category r = (case segments (path (urlparse u)) of [] \<Rightarrow> [] | w # ws \<Rightarrow> w)
       \<and> (soup_title pg = None \<or> soup_title pg = Some None \<or> soup_title pg = Some (Some [])
            \<longrightarrow> title r = u)
       \<and> (\<forall>t. soup_title pg = Some (Some t) \<and> t \<noteq> [] \<longrightarrow> title r = py_strip py_isspace t)"
  by (auto simp: visit_page_rows page_category_first_segment page_title_def)


theorem visit_page_record_examples:
  "(\<exists>r. rows (visit_page site_env site_config ''https://x.test/a''
                \<lparr>html = ''<a>'', soup_title = Some (Some '' A page ''), anchors = []\<rparr>
                (make_state site_env site_args)) = rows (make_state site_env site_args) @ [r]
        \<and> url r = ''https://x.test/a'' \<and> category r = ''a'' \<and> title r = ''A page'')
   \<and> (\<exists>r. rows (visit_page site_env site_config ''https://x.test/a''
                \<lparr>html = ''<a>'', soup_title = None, anchors = []\<rparr>
                (make_state site_env site_args)) = rows (make_state site_env site_args) @ [r]
        \<and> url r = ''https://x.test/a'' \<and> category r = ''a'' \<and> title r = ''https://x.test/a'')"
proof -
  have seg: "(case segments (path (urlparse ''https://x.test/a'')) of [] \<Rightarrow> [] | w # ws \<Rightarrow> w) = ''a''"
    by code_simp
  have strip: "py_strip py_isspace '' A page '' = ''A page''"
    by code_simp
  have ne: "'' A page '' \<noteq> []"
    by simp
  have t1: "soup_title \<lparr>html = ''<a>'', soup_title = Some (Some '' A page ''), anchors = []\<rparr>
              = Some (Some '' A page '')"
    and t2: "soup_title \<lparr>html = ''<a>'', soup_title = None, anchors = []\<rparr> = None"
    by simp_all
  from visit_page_record [of site_env site_config "''https://x.test/a''"
      "\<lparr>html = ''<a>'', soup_title = Some (Some '' A page ''), anchors = []\<rparr>" "make_state site_env site_args"]
  have 1: "\<exists>r. rows (visit_page site_env site_config ''https://x.test/a''
                \<lparr>html = ''<a>'', soup_title = Some (Some '' A page ''), anchors = []\<rparr>
                (make_state site_env site_args)) = rows (make_state site_env site_args) @ [r]
        \<and> url r = ''https://x.test/a'' \<and> category r = ''a'' \<and> title r = ''A page''"
    unfolding seg t1 using ne strip by metis
  from visit_page_record [of site_env site_config "''https://x.test/a''"
      "\<lparr>html = ''<a>'', soup_title = None, anchors = []\<rparr>" "make_state site_env site_args"]
  have 2: "\<exists>r. rows (visit_page site_env site_config ''https://x.test/a''
                \<lparr>html = ''<a>'', soup_title = None, anchors = []\<rparr>
                (make_state site_env site_args)) = rows (make_state site_env site_args) @ [r]
        \<and> url r = ''https://x.test/a'' \<and> category r = ''a'' \<and> title r = ''https://x.test/a''"
    unfolding seg t2 by metis
  from 1 2 show ?thesis by (rule conjI)
qed

theorem blank_title_recorded_empty:
  "site_page ''https://x.test/b''
     = Some \<lparr>html = ''<b>'', soup_title = Some (Some ''  ''), anchors = [''/c'', ''/a'']\<rparr>
   \<and> rows site_crawl ! 2 = \<lparr>title = [], category = ''b'', url = ''https://x.test/b''\<rparr>
   \<and> title (rows site_crawl ! 2) \<noteq> url (rows site_crawl ! 2)"
proof -
  have "site_page ''https://x.test/b''
     = Some \<lparr>html = ''<b>'', soup_title = Some (Some ''  ''), anchors = [''/c'', ''/a'']\<rparr>"
    by code_simp
  moreover have "rows site_crawl ! 2 = \<lparr>title = [], category = ''b'', url = ''https://x.test/b''\<rparr>"
    by (simp only: site_crawl_rows) simp
  ultimately show ?thesis by simp
qed

section \<open>The root URL\<close>

lemma py_rstrip_no_suffix: "\<not> suffix [c] (py_rstrip (\<lambda>x. x = c) s)"
proof
  assume "suffix [c] (py_rstrip (\<lambda>x. x = c) s)"
  then obtain zs where z: "py_rstrip (\<lambda>x. x = c) s = zs @ [c]"
    by (auto simp: suffix_def)
  then have "py_rstrip (\<lambda>x. x = c) s \<noteq> []" "last (py_rstrip (\<lambda>x. x = c) s) = c"
    by simp_all
  with py_rstrip_last [of "\<lambda>x. x = c" s] show False by simp
qed

lemma all_same_replicate: "list_all (\<lambda>x. x = c) xs \<Longrightarrow> xs = replicate (length xs) c"
  by (induction xs) auto

lemma py_rstrip_decomp: "\<exists>k. s = py_rstrip (\<lambda>x. x = c) s @ replicate k c"
proof -
  let ?t = "takeWhile (\<lambda>x. x = c) (rev s)"
  have "rev (dropWhile (\<lambda>x. x = c) (rev s)) @ rev ?t = rev (?t @ dropWhile (\<lambda>x. x = c) (rev s))"
    by (simp only: rev_append)
  also have "\<dots> = s"
    by (simp only: takeWhile_dropWhile_id rev_rev_ident)
  finally have 1: "s = py_rstrip (\<lambda>x. x = c) s @ rev ?t"
    by (simp add: py_rstrip_def)
  have "list_all (\<lambda>x. x = c) (rev ?t)"
    by (auto simp: list_all_iff dest: set_takeWhileD)
  then have "rev ?t = replicate (length (rev ?t)) c"
    by (rule all_same_replicate)
  with 1 show ?thesis by metis
qed

lemma spider_root_make_config [simp]:
  "spider_root (make_config en a) = py_rstrip (\<lambda>c. c = CHR ''/'') (arg_root_url a)"
  by (simp add: make_config_def)

lemma first_pass_rows:
  assumes "rows s = []"
  shows "\<forall>r \<in> set (rows (crawl_after 1 en cfg s)). url r = spider_root cfg"
proof -
  let ?t = "poll_cancel en (crawl_seed cfg s)"
  have f: "frontier ?t = [(spider_root cfg, 0)]" and r: "rows ?t = []"
    using assms by simp_all
  have "\<forall>r \<in> set (rows (crawl_step en cfg ?t)). url r = spider_root cfg"
  proof (cases rule: crawl_step_cases [of ?t en cfg])
    case skip
    then have "rows (crawl_step en cfg ?t) = []"
      using r by (simp add: quiet_def)
    then show ?thesis by simp
  next
    case (visit pg s')
    from visit(1) r have "rows s' = []" by (simp add: quiet_def)
    with visit(2) f show ?thesis by (simp add: visit_page_rows)
  qed
  with r show ?thesis
    by (simp add: crawl_after_def crawl_iteration_def Let_def)
qed

text \<open>
  C10. The constructor stores the root URL without its trailing slashes (the root
  argument is the stored root followed by slashes only, and the stored root does not
  end with a slash). The stored root is what the frontier is seeded with, what the
  depth computation compares with and answers 0 for, and the URL of the record that the
  first pass of the loop appends, if it appends one.
\<close>

theorem root_stored_without_trailing_slashes:
  "spider_root (make_config en a) = py_rstrip (\<lambda>c. c = CHR ''/'') (arg_root_url a)
   \<and> \<not> suffix ''/'' (spider_root (make_config en a))
   \<and> (\<exists>k. arg_root_url a = spider_root (make_config en a) @ replicate k (CHR ''/''))
   \<and> frontier (crawl_seed (make_config en a) (make_state en a)) = [(spider_root (make_config en a), 0)]
   \<and> get_url_depth (make_config en a) (make_state en a) (spider_root (make_config en a))
       = (0, make_state en a)
   \<and> (\<forall>r \<in> set (rows (crawl_after 1 en (make_config en a) (make_state en a))).
         url r = spider_root (make_config en a))"
proof -
  have "get_url_depth (make_config en a) (make_state en a) (spider_root (make_config en a))
       = (0, make_state en a)"
    by (simp add: get_url_depth_def)
  moreover have "\<forall>r \<in> set (rows (crawl_after 1 en (make_config en a) (make_state en a))).
         url r = spider_root (make_config en a)"
    by (rule first_pass_rows) simp
  ultimately show ?thesis
    using py_rstrip_no_suffix [of "CHR ''/''" "arg_root_url a"]
      py_rstrip_decomp [of "arg_root_url a" "CHR ''/''"]
    by simp
qed

theorem root_of_sample_site:
  "arg_root_url site_args = ''https://x.test/''
   \<and> spider_root site_config = ''https://x.test''
   \<and> rows (crawl_after 1 site_env site_config (make_state site_env site_args))
       = [\<lparr>title = ''Home'', category = [], url = ''https://x.test''\<rparr>]
   \<and> url (hd (rows site_crawl)) = ''https://x.test''"
proof -
  have a: "arg_root_url site_args = ''https://x.test/''"
    by code_simp
  have "py_rstrip (\<lambda>c. c = CHR ''/'') ''https://x.test/'' = ''https://x.test''"
    by code_simp
  with root_stored_without_trailing_slashes [of site_env site_args] a
  have b: "spider_root site_config = ''https://x.test''"
    by (simp only: site_config_def)
  have "url (hd (rows site_crawl)) = ''https://x.test''"
    by (simp only: site_crawl_rows) simp
  with a b site_after_one_rows show ?thesis by simp
qed

section \<open>Retries\<close>


fun is_net_event :: "event \<Rightarrow> bool" where
  "is_net_event (HttpGet u) = True"
| "is_net_event (Sleep t) = True"
| "is_net_event e = False"

definition net_events :: "event list \<Rightarrow> event list" where
  "net_events tr = filter is_net_event tr"

lemma net_events_simps [simp]:
  "net_events [] = []" "net_events (xs @ ys) = net_events xs @ net_events ys"
  "net_events (HttpGet u # tr) = HttpGet u # net_events tr"
  "net_events (Sleep t # tr) = Sleep t # net_events tr"
  "net_events (Log m # tr) = net_events tr"
  by (simp_all add: net_events_def)









section \<open>The order of the checks\<close>

lemma can_fetch_trace:
  "\<exists>new. trace (snd (can_fetch en cfg s u)) = trace s @ new \<and> (\<forall>v. HttpGet v \<notin> set new)"
  by (auto simp: can_fetch_snd get_robots_parser_def Let_def split: option.splits)

lemma log_event_no_get:
  "\<exists>new. trace (log_event en m s) = trace s @ new \<and> (\<forall>v. HttpGet v \<notin> set new)"
  by simp

text \<open>A world where \<open>robots.txt\<close> forbids everything, crawled with an allow-list that
  does not contain the root's host.\<close>

definition gate_env :: env where
  "gate_env =
     \<lparr> urljoin = urljoin_sample,
       http_get = (\<lambda>tr u. None),
       robots_read = (\<lambda>tr u. Some (\<lambda>ua v. False)),
       random_choice = (\<lambda>tr xs. hd xs),
       random_uniform = (\<lambda>tr lo hi. lo),
       cancel_requested = (\<lambda>tr. False),
       log_cb = True, progress_cb = True \<rparr>"

definition gate_args :: spider_args where
  "gate_args = (default_args ''https://x.test/'')\<lparr>arg_allowed_domains := Some [''other.test'']\<rparr>"

definition gate_config :: config where
  "gate_config = make_config gate_env gate_args"

definition gate_seeded :: state where
  "gate_seeded = crawl_seed gate_config (make_state gate_env gate_args)"

text \<open>
  C3, as the code has it. For the entry \<open>(u, d)\<close> taken from the frontier the checks are
  made in the order: depth limit, \<open>robots.txt\<close>, domain allow-list, link filter, keyword
  filter. The first one that fails ends the iteration: its message is logged (when a log
  callback was passed), no record is added and no request for a page is made; when the
  depth check fails, \<open>robots.txt\<close> is not consulted either.
\<close>

theorem checks_in_order:
  "hd (frontier s) = (u, d) \<and> can_fetch en cfg (s\<lparr>frontier := tl (frontier s)\<rparr>) u = (ok, s2) \<longrightarrow>
     ((0 \<le> max_depth cfg \<and> max_depth cfg < d) \<longrightarrow>
        crawl_step en cfg s
          = log_event en (LogSkipDepth u d (max_depth cfg)) (s\<lparr>frontier := tl (frontier s)\<rparr>))
   \<and> (\<not> (0 \<le> max_depth cfg \<and> max_depth cfg < d) \<and> \<not> ok \<longrightarrow>
        crawl_step en cfg s = log_event en (LogBlockedRobots u) s2)
   \<and> (\<not> (0 \<le> max_depth cfg \<and> max_depth cfg < d) \<and> ok \<and> \<not> check_domain_allowed cfg u \<longrightarrow>
        crawl_step en cfg s = log_event en (LogDomainNotAllowed u) s2)
   \<and> (\<not> (0 \<le> max_depth cfg \<and> max_depth cfg < d) \<and> ok \<and> check_domain_allowed cfg u
        \<and> \<not> check_link_filter cfg u \<longrightarrow>
        crawl_step en cfg s = log_event en (LogFilterMismatch u) s2)
   \<and> (\<not> (0 \<le> max_depth cfg \<and> max_depth cfg < d) \<and> ok \<and> check_domain_allowed cfg u
        \<and> check_link_filter cfg u \<and> \<not> check_keyword_filters cfg u \<longrightarrow>
        crawl_step en cfg s = log_event en (LogKeywordMismatch u) s2)
   \<and> ((0 \<le> max_depth cfg \<and> max_depth cfg < d) \<or> \<not> ok \<or> \<not> check_domain_allowed cfg u
        \<or> \<not> check_link_filter cfg u \<or> \<not> check_keyword_filters cfg u \<longrightarrow>
        rows (crawl_step en cfg s) = rows s
        \<and> (\<exists>new. trace (crawl_step en cfg s) = trace s @ new \<and> (\<forall>v. HttpGet v \<notin> set new)))"
proof (intro impI, elim conjE)
  assume hd: "hd (frontier s) = (u, d)"
    and cf: "can_fetch en cfg (s\<lparr>frontier := tl (frontier s)\<rparr>) u = (ok, s2)"
  let ?s1 = "s\<lparr>frontier := tl (frontier s)\<rparr>"
  let ?deep = "0 \<le> max_depth cfg \<and> max_depth cfg < d"
  from can_fetch_trace [of en cfg ?s1 u] cf
  obtain new2 where t2: "trace s2 = trace s @ new2" "\<forall>v. HttpGet v \<notin> set new2"
    by auto
  have r2: "rows s2 = rows s"
    using quiet_can_fetch [of ?s1 en cfg u] cf by (simp add: quiet_def)
  have 1: "?deep \<longrightarrow> crawl_step en cfg s = log_event en (LogSkipDepth u d (max_depth cfg)) ?s1"
    by (simp add: crawl_step_def hd Let_def)
  have 2: "\<not> ?deep \<and> \<not> ok \<longrightarrow> crawl_step en cfg s = log_event en (LogBlockedRobots u) s2"
    by (simp add: crawl_step_def hd Let_def cf)
  have 3: "\<not> ?deep \<and> ok \<and> \<not> check_domain_allowed cfg u \<longrightarrow>
        crawl_step en cfg s = log_event en (LogDomainNotAllowed u) s2"
    by (simp add: crawl_step_def hd Let_def cf)
  have 4: "\<not> ?deep \<and> ok \<and> check_domain_allowed cfg u \<and> \<not> check_link_filter cfg u \<longrightarrow>
        crawl_step en cfg s = log_event en (LogFilterMismatch u) s2"
    by (simp add: crawl_step_def hd Let_def cf)
  have 5: "\<not> ?deep \<and> ok \<and> check_domain_allowed cfg u \<and> check_link_filter cfg u
        \<and> \<not> check_keyword_filters cfg u \<longrightarrow>
        crawl_step en cfg s = log_event en (LogKeywordMismatch u) s2"
    by (simp add: crawl_step_def hd Let_def cf)
  have 6: "?deep \<or> \<not> ok \<or> \<not> check_domain_allowed cfg u
        \<or> \<not> check_link_filter cfg u \<or> \<not> check_keyword_filters cfg u \<longrightarrow>
        rows (crawl_step en cfg s) = rows s
        \<and> (\<exists>new. trace (crawl_step en cfg s) = trace s @ new \<and> (\<forall>v. HttpGet v \<notin> set new))"
  proof
    assume "?deep \<or> \<not> ok \<or> \<not> check_domain_allowed cfg u
        \<or> \<not> check_link_filter cfg u \<or> \<not> check_keyword_filters cfg u"
    then consider (a) "?deep" | (b) m where "crawl_step en cfg s = log_event en m s2"
      using 2 3 4 5 by blast
    then show "rows (crawl_step en cfg s) = rows s
        \<and> (\<exists>new. trace (crawl_step en cfg s) = trace s @ new \<and> (\<forall>v. HttpGet v \<notin> set new))"
    proof cases
      case a
      with 1 show ?thesis by simp
    next
      case b
      have "trace (log_event en m s2) = trace s @ (new2 @ (if log_cb en then [Log m] else []))"
        using t2 by simp
      moreover have "\<forall>v. HttpGet v \<notin> set (new2 @ (if log_cb en then [Log m] else []))"
        using t2 by simp
      ultimately show ?thesis
        unfolding b using r2 by (metis log_event_fields(1))
    qed
  qed
  from 1 2 3 4 5 6 show "(?deep \<longrightarrow>
        crawl_step en cfg s = log_event en (LogSkipDepth u d (max_depth cfg)) ?s1)
   \<and> (\<not> ?deep \<and> \<not> ok \<longrightarrow> crawl_step en cfg s = log_event en (LogBlockedRobots u) s2)
   \<and> (\<not> ?deep \<and> ok \<and> \<not> check_domain_allowed cfg u \<longrightarrow>
        crawl_step en cfg s = log_event en (LogDomainNotAllowed u) s2)
   \<and> (\<not> ?deep \<and> ok \<and> check_domain_allowed cfg u \<and> \<not> check_link_filter cfg u \<longrightarrow>
        crawl_step en cfg s = log_event en (LogFilterMismatch u) s2)
   \<and> (\<not> ?deep \<and> ok \<and> check_domain_allowed cfg u \<and> check_link_filter cfg u
        \<and> \<not> check_keyword_filters cfg u \<longrightarrow>
        crawl_step en cfg s = log_event en (LogKeywordMismatch u) s2)
   \<and> (?deep \<or> \<not> ok \<or> \<not> check_domain_allowed cfg u
        \<or> \<not> check_link_filter cfg u \<or> \<not> check_keyword_filters cfg u \<longrightarrow>
        rows (crawl_step en cfg s) = rows s
        \<and> (\<exists>new. trace (crawl_step en cfg s) = trace s @ new \<and> (\<forall>v. HttpGet v \<notin> set new)))"
    by (intro conjI)
qed

lemma gate_crawl_summary:
  "summary [] (crawl gate_env gate_config (make_state gate_env gate_args)) =
     ([], [QueuePut ''https://x.test'' 0, RobotsRead ''https://x.test/robots.txt'',
           Log (LogBlockedRobots ''https://x.test'')], [])"
  by code_simp

lemma gate_domain_check: "\<not> check_domain_allowed gate_config ''https://x.test''"
  by code_simp

theorem robots_checked_before_domain:
  "\<not> check_domain_allowed gate_config ''https://x.test''
   \<and> trace (crawl gate_env gate_config (make_state gate_env gate_args))
       = [QueuePut ''https://x.test'' 0, RobotsRead ''https://x.test/robots.txt'',
          Log (LogBlockedRobots ''https://x.test'')]
   \<and> Log (LogDomainNotAllowed ''https://x.test'')
       \<notin> set (trace (crawl gate_env gate_config (make_state gate_env gate_args)))"
proof -
  have t: "trace (crawl gate_env gate_config (make_state gate_env gate_args))
       = [QueuePut ''https://x.test'' 0, RobotsRead ''https://x.test/robots.txt'',
          Log (LogBlockedRobots ''https://x.test'')]"
    using summaryD [OF gate_crawl_summary] by (elim conjE)
  have "Log (LogDomainNotAllowed ''https://x.test'')
       \<notin> set (trace (crawl gate_env gate_config (make_state gate_env gate_args)))"
    unfolding t by simp
  with t gate_domain_check show ?thesis by blast
qed


theorem checks_in_order_robots_first:
  "hd (frontier gate_seeded) = (''https://x.test'', 0)
   \<and> \<not> fst (can_fetch gate_env gate_config (gate_seeded\<lparr>frontier := tl (frontier gate_seeded)\<rparr>) ''https://x.test'')
   \<and> \<not> check_domain_allowed gate_config ''https://x.test''
   \<and> crawl_step gate_env gate_config gate_seeded
       = log_event gate_env (LogBlockedRobots ''https://x.test'')
           (snd (can_fetch gate_env gate_config (gate_seeded\<lparr>frontier := tl (frontier gate_seeded)\<rparr>)
                   ''https://x.test''))
   \<and> rows (crawl_step gate_env gate_config gate_seeded) = rows gate_seeded"
proof -
  let ?s1 = "gate_seeded\<lparr>frontier := tl (frontier gate_seeded)\<rparr>"
  let ?c = "can_fetch gate_env gate_config ?s1 ''https://x.test''"
  have root: "spider_root gate_config = ''https://x.test''"
    by code_simp
  have hd: "hd (frontier gate_seeded) = (''https://x.test'', 0)"
    by (simp add: gate_seeded_def root)
  have nok: "\<not> fst ?c"
    by code_simp
  then have c: "?c = (False, snd ?c)"
    by (simp add: prod_eq_iff)
  have depth: "\<not> (0 \<le> max_depth gate_config \<and> max_depth gate_config < 0)"
    by simp
  from checks_in_order [of gate_seeded "''https://x.test''" 0 gate_env gate_config False "snd ?c"] hd c depth
  have "crawl_step gate_env gate_config gate_seeded
          = log_event gate_env (LogBlockedRobots ''https://x.test'') (snd ?c)"
    and "rows (crawl_step gate_env gate_config gate_seeded) = rows gate_seeded"
    by blast+
  with hd nok gate_domain_check show ?thesis by blast
qed

end
